theory Spec2Isabelle
  imports Main "HOL-Library.Sublist"
begin

unbundle bit_operations_syntax

section \<open>Data model of \<^verbatim>\<open>tetris.py\<close>\<close>

text \<open>
  Row bitmasks are non-negative Python integers, modelled as \<^typ>\<open>nat\<close>; bit \<open>i\<close> is
  column \<open>i\<close>, column 0 being the rightmost one. Anchor coordinates are Python integers
  that go negative (a tentative move below the floor), modelled as \<^typ>\<open>int\<close>.
  Every exception the module can raise is a value of \<open>error\<close>.
\<close>

datatype error = ValueError | IndexError | AttributeError

record Loc =
  row :: int
  col :: int

datatype Dir = N | E | S | W

fun Dir_value :: "Dir \<Rightarrow> int" where
  "Dir_value N = 0"
| "Dir_value E = 1"
| "Dir_value S = 2"
| "Dir_value W = 3"

text \<open>
  \<^verbatim>\<open>Dir(v)\<close> looks a member up by value. Both call sites pass a value reduced
  modulo 4, which lies in \<open>0..3\<close>, so the lookup never raises there; the last branch
  is the member of value 3.
\<close>

definition Dir_of :: "int \<Rightarrow> Dir" where
  "Dir_of v = (if v = 0 then N else if v = 1 then E else if v = 2 then S else W)"

subsection \<open>The rotation transform\<close>

text \<open>\<^verbatim>\<open>int.bit_length()\<close> on a non-negative integer.\<close>

fun bit_length :: "nat \<Rightarrow> nat" where
  "bit_length n = (if n = 0 then 0 else Suc (bit_length (n div 2)))"

declare bit_length.simps [simp del]

text \<open>\<^verbatim>\<open>format(n, "b")\<close>: the binary digits of \<open>n\<close>, most significant first; \<open>"0"\<close> for 0.\<close>

definition bit_char :: "bool \<Rightarrow> char" where
  "bit_char b = (if b then CHR ''1'' else CHR ''0'')"

fun bin_str :: "nat \<Rightarrow> string" where
  "bin_str n = (if n < 2 then [bit_char (n = 1)]
                else bin_str (n div 2) @ [bit_char (n mod 2 = 1)])"

declare bin_str.simps [simp del]

text \<open>\<^verbatim>\<open>f"{layer:0>{width}b}"\<close>: right-aligned in \<open>width\<close> columns, filled with \<open>0\<close>;
  a longer digit string is not truncated.\<close>

definition format_bin :: "nat \<Rightarrow> nat \<Rightarrow> string" where
  "format_bin width layer =
     replicate (width - length (bin_str layer)) (CHR ''0'') @ bin_str layer"

text \<open>\<^verbatim>\<open>int(s, 2)\<close> on a string of binary digits. The strings it is applied to have one
  character per row of a non-empty shape, so the empty string (a \<^verbatim>\<open>ValueError\<close>)
  does not reach it.\<close>

definition int_base2 :: "string \<Rightarrow> nat" where
  "int_base2 s = foldl (\<lambda>acc c. 2 * acc + (if c = CHR ''1'' then 1 else 0)) 0 s"

text \<open>\<^verbatim>\<open>zip(*rows)\<close>: the columns of \<open>rows\<close>, as many as the shortest row has.\<close>

definition zip_star :: "'a list list \<Rightarrow> 'a list list" where
  "zip_star rows =
     (if rows = [] then []
      else map (\<lambda>k. map (\<lambda>r. r ! k) rows) [0..<Min (set (map length rows))])"

text \<open>\<^verbatim>\<open>max(layer.bit_length() for layer in shape)\<close>, which raises on an empty shape;
  the callers below test for the empty shape first.\<close>

definition max_bit_length :: "nat list \<Rightarrow> nat" where
  "max_bit_length shape = Max (set (map bit_length shape))"

definition rotation :: "nat list \<Rightarrow> error + nat list" where
  "rotation shape =
     (if shape = [] then Inl ValueError
      else
        let height = length shape;
            width = max_bit_length shape
        in Inr (map int_base2 (zip_star (rev (map (format_bin width) shape)))))"

subsection \<open>Piece\<close>

record Piece =
  shapes :: "Dir \<Rightarrow> nat list"
  loc :: Loc
  rot :: Dir
  widths :: "Dir \<Rightarrow> nat"
  heights :: "Dir \<Rightarrow> nat"

text \<open>The four-entry dictionary literal of \<^verbatim>\<open>Piece.__init__\<close>, as a total function on
  its keys.\<close>

definition shapes_dict :: "nat list \<Rightarrow> nat list \<Rightarrow> nat list \<Rightarrow> nat list \<Rightarrow> Dir \<Rightarrow> nat list" where
  "shapes_dict n w s e d = (case d of N \<Rightarrow> n | W \<Rightarrow> w | S \<Rightarrow> s | E \<Rightarrow> e)"

definition Piece_init :: "Loc \<Rightarrow> nat list \<Rightarrow> error + Piece" where
  "Piece_init l shape =
     (case rotation shape of Inl e \<Rightarrow> Inl e | Inr r1 \<Rightarrow>
     (case rotation r1 of Inl e \<Rightarrow> Inl e | Inr r2 \<Rightarrow>
     (case rotation r2 of Inl e \<Rightarrow> Inl e | Inr r3 \<Rightarrow>
        let sh = shapes_dict shape r1 r2 r3
        in Inr \<lparr>shapes = sh, loc = l, rot = N,
                widths = (\<lambda>d. max_bit_length (sh d)),
                heights = (\<lambda>d. length (sh d))\<rparr>)))"

definition get_width :: "Piece \<Rightarrow> nat" where
  "get_width p = widths p (rot p)"

definition get_height :: "Piece \<Rightarrow> nat" where
  "get_height p = widths p (rot p)"

text \<open>
  \<^verbatim>\<open>get_bits\<close> is a generator: the shift is evaluated when the first layer is
  requested. Every layer is shifted by the same amount, so a negative shift count raises
  \<^verbatim>\<open>ValueError\<close> at the first layer, before the consumer has done anything, and an
  empty variant raises nothing.
\<close>

definition shift_layers :: "Piece \<Rightarrow> nat list" where
  "shift_layers p =
     map (\<lambda>layer. push_bit (nat (col (loc p) - int (get_width p))) layer) (shapes p (rot p))"

definition get_bits :: "Piece \<Rightarrow> error + nat list" where
  "get_bits p =
     (if shapes p (rot p) \<noteq> [] \<and> col (loc p) - int (get_width p) < 0 then Inl ValueError
      else Inr (shift_layers p))"

definition Piece_rot_right :: "Piece \<Rightarrow> Piece" where
  "Piece_rot_right p = p\<lparr>rot := Dir_of ((Dir_value (rot p) + 1) mod 4)\<rparr>"

definition Piece_rot_left :: "Piece \<Rightarrow> Piece" where
  "Piece_rot_left p = p\<lparr>rot := Dir_of ((Dir_value (rot p) - 1) mod 4)\<rparr>"

definition SHAPES :: "nat list list" where
  "SHAPES = [[3, 3], [1, 1, 1, 1], [6, 3], [3, 6], [3, 1, 1], [3, 2, 2], [2, 7]]"

section \<open>The game controller\<close>

text \<open>
  The board dimensions are the constructor's \<^verbatim>\<open>height\<close> and \<^verbatim>\<open>width\<close>, taken as
  natural numbers. \<^verbatim>\<open>can_hold\<close> is an attribute that \<^verbatim>\<open>__init__\<close> never assigns:
  \<open>None\<close> is the attribute not being there, and reading it then raises
  \<^verbatim>\<open>AttributeError\<close>. \<^verbatim>\<open>current_piece\<close> is \<^verbatim>\<open>None\<close> only inside the constructor,
  before the first spawn, so the field holds a piece.
\<close>

record Tetris =
  width :: nat
  height :: nat
  board :: "nat list"
  FULL_ROW :: nat
  current_piece :: Piece
  hold_piece :: "Piece option"
  cleared_lines :: nat
  starting_level :: int
  game_over :: bool
  can_hold :: "bool option"

text \<open>
  The loop of \<^verbatim>\<open>piece_en_cours\<close> over the piece's layers, \<open>r\<close> being
  \<^verbatim>\<open>layer_row\<close>. It runs only after \<^verbatim>\<open>loc.row < 0\<close> has been excluded, so the index
  is never negative.
\<close>

fun overlap_loop :: "nat list \<Rightarrow> int \<Rightarrow> nat list \<Rightarrow> bool" where
  "overlap_loop b r [] = True"
| "overlap_loop b r (layer # layers) =
     (if r \<ge> int (length b) then True
      else if (b ! nat r) AND layer \<noteq> 0 then False
      else overlap_loop b (r + 1) layers)"

definition piece_en_cours :: "Tetris \<Rightarrow> bool" where
  "piece_en_cours s =
     (let p = current_piece s in
      if row (loc p) < 0 then False
      else if col (loc p) > int (width s) then False
      else if col (loc p) - int (get_width p) < 0 then False
      else overlap_loop (board s) (row (loc p)) (shift_layers p))"

text \<open>
  \<^verbatim>\<open>_add_piece\<close>. The shape is the argument; \<^verbatim>\<open>_next_piece\<close> passes the result of
  \<^verbatim>\<open>random.choice\<close> over the shape table, which the model takes as the input \<open>pick\<close>.
\<close>

definition add_piece :: "Tetris \<Rightarrow> nat list \<Rightarrow> error + Tetris" where
  "add_piece s shape =
     (case Piece_init \<lparr>row = int (height s) - int (length shape), col = int (width s div 2)\<rparr> shape of
        Inl e \<Rightarrow> Inl e
      | Inr new_piece \<Rightarrow>
          let s1 = s\<lparr>current_piece := new_piece\<rparr>
          in Inr (if \<not> piece_en_cours s1 then s1\<lparr>game_over := True\<rparr> else s1))"

definition next_piece :: "Tetris \<Rightarrow> nat list \<Rightarrow> error + Tetris" where
  "next_piece s pick = add_piece s pick"

text \<open>
  \<^verbatim>\<open>Tetris.__init__\<close>. The first spawn runs before \<^verbatim>\<open>game_over\<close> is assigned
  \<^verbatim>\<open>False\<close> on line 84, so whatever the spawn decided is overwritten: the constructed
  object always has the flag down. \<open>ch\<close> is the value of \<^verbatim>\<open>can_hold\<close> before the call:
  \<open>None\<close> for a fresh object, the old value when the driver restarts by calling
  \<^verbatim>\<open>t.__init__()\<close> on the live object.
\<close>

definition Tetris_init :: "bool option \<Rightarrow> nat \<Rightarrow> nat \<Rightarrow> int \<Rightarrow> nat list \<Rightarrow> error + Tetris" where
  "Tetris_init ch h w lvl pick =
     (case Piece_init \<lparr>row = int h - int (length pick), col = int (w div 2)\<rparr> pick of
        Inl e \<Rightarrow> Inl e
      | Inr new_piece \<Rightarrow>
          Inr \<lparr>width = w, height = h, board = [], FULL_ROW = 2 ^ w - 1,
               current_piece = new_piece, hold_piece = None, cleared_lines = 0,
               starting_level = lvl, game_over = False, can_hold = ch\<rparr>)"

definition clear_rows :: "Tetris \<Rightarrow> Tetris" where
  "clear_rows s =
     (let prev_num_lines = length (board s);
          s1 = s\<lparr>board := filter (\<lambda>layer. layer \<noteq> FULL_ROW s) (board s)\<rparr>
      in s1\<lparr>cleared_lines := cleared_lines s1 + (prev_num_lines - length (board s1))\<rparr>)"

text \<open>
  The merge loop of \<^verbatim>\<open>_stop_piece\<close>, \<open>r\<close> being \<^verbatim>\<open>layer_row\<close>. A negative index
  below the length is Python's indexing from the end, and raises \<^verbatim>\<open>IndexError\<close> when
  it reaches before the first row.
\<close>

fun merge_loop :: "nat list \<Rightarrow> int \<Rightarrow> nat list \<Rightarrow> error + nat list" where
  "merge_loop b r [] = Inr b"
| "merge_loop b r (layer # layers) =
     (if r < int (length b) then
        (if 0 \<le> r then merge_loop (b[nat r := (b ! nat r) OR layer]) (r + 1) layers
         else if 0 \<le> int (length b) + r then
           merge_loop (b[nat (int (length b) + r) := (b ! nat (int (length b) + r)) OR layer])
             (r + 1) layers
         else Inl IndexError)
      else merge_loop (b @ [layer]) (r + 1) layers)"

definition stop_piece :: "Tetris \<Rightarrow> nat list \<Rightarrow> error + Tetris" where
  "stop_piece s pick =
     (case get_bits (current_piece s) of Inl e \<Rightarrow> Inl e | Inr shape \<Rightarrow>
     (case merge_loop (board s) (row (loc (current_piece s))) shape of Inl e \<Rightarrow> Inl e | Inr b \<Rightarrow>
     (case next_piece (clear_rows (s\<lparr>board := b\<rparr>)) pick of Inl e \<Rightarrow> Inl e | Inr s1 \<Rightarrow>
        Inr (s1\<lparr>can_hold := Some True\<rparr>))))"

definition set_row :: "int \<Rightarrow> Tetris \<Rightarrow> Tetris" where
  "set_row r s = s\<lparr>current_piece := (current_piece s)\<lparr>loc := (loc (current_piece s))\<lparr>row := r\<rparr>\<rparr>\<rparr>"

definition set_col :: "int \<Rightarrow> Tetris \<Rightarrow> Tetris" where
  "set_col c s = s\<lparr>current_piece := (current_piece s)\<lparr>loc := (loc (current_piece s))\<lparr>col := c\<rparr>\<rparr>\<rparr>"

definition cur_row :: "Tetris \<Rightarrow> int" where
  "cur_row s = row (loc (current_piece s))"

definition cur_col :: "Tetris \<Rightarrow> int" where
  "cur_col s = col (loc (current_piece s))"

definition move_down :: "Tetris \<Rightarrow> nat list \<Rightarrow> error + (bool \<times> Tetris)" where
  "move_down s pick =
     (let s1 = set_row (cur_row s - 1) s in
      if \<not> piece_en_cours s1 then
        (case stop_piece (set_row (cur_row s1 + 1) s1) pick of
           Inl e \<Rightarrow> Inl e
         | Inr s2 \<Rightarrow> Inr (False, s2))
      else Inr (True, s1))"

definition move_left :: "Tetris \<Rightarrow> Tetris" where
  "move_left s =
     (let s1 = set_col (cur_col s + 1) s in
      if \<not> piece_en_cours s1 then set_col (cur_col s1 - 1) s1 else s1)"

definition move_right :: "Tetris \<Rightarrow> Tetris" where
  "move_right s =
     (let s1 = set_col (cur_col s - 1) s in
      if \<not> piece_en_cours s1 then set_col (cur_col s1 + 1) s1 else s1)"

definition rot_right :: "Tetris \<Rightarrow> Tetris" where
  "rot_right s =
     (let s1 = s\<lparr>current_piece := Piece_rot_right (current_piece s)\<rparr> in
      if \<not> piece_en_cours s1 then s1\<lparr>current_piece := Piece_rot_left (current_piece s1)\<rparr> else s1)"

definition rot_left :: "Tetris \<Rightarrow> Tetris" where
  "rot_left s =
     (let s1 = s\<lparr>current_piece := Piece_rot_left (current_piece s)\<rparr> in
      if \<not> piece_en_cours s1 then s1\<lparr>current_piece := Piece_rot_right (current_piece s1)\<rparr> else s1)"

definition hold :: "Tetris \<Rightarrow> nat list \<Rightarrow> error + Tetris" where
  "hold s pick =
     (case hold_piece s of
        None \<Rightarrow>
          (case next_piece (s\<lparr>hold_piece := Some (current_piece s)\<rparr>) pick of
             Inl e \<Rightarrow> Inl e
           | Inr s1 \<Rightarrow> Inr (s1\<lparr>can_hold := Some False\<rparr>))
      | Some held \<Rightarrow>
          (case can_hold s of
             None \<Rightarrow> Inl AttributeError
           | Some True \<Rightarrow>
               (let held_shape = shapes held N in
                case add_piece (s\<lparr>hold_piece := Some (current_piece s)\<rparr>) held_shape of
                  Inl e \<Rightarrow> Inl e
                | Inr s1 \<Rightarrow> Inr (s1\<lparr>can_hold := Some False\<rparr>))
           | Some False \<Rightarrow> Inr (s\<lparr>can_hold := Some False\<rparr>)))"

definition get_level :: "Tetris \<Rightarrow> int" where
  "get_level s = starting_level s + int (cleared_lines s) div 10"

text \<open>
  \<^verbatim>\<open>drop\<close>: the \<^verbatim>\<open>while self.move_down(): pass\<close> loop. Only the last call of the
  loop locks, so only that call consumes a random shape. An accepted \<^verbatim>\<open>move_down\<close>
  leaves the piece on a row that is not negative and one lower than before, which is the
  measure of the termination proof.
\<close>

function drop :: "Tetris \<Rightarrow> nat list \<Rightarrow> error + Tetris" where
  "drop s pick =
     (case move_down s pick of
        Inl e \<Rightarrow> Inl e
      | Inr (moved, s1) \<Rightarrow> if moved then drop s1 pick else Inr s1)"
  by pat_completeness auto
termination
proof (relation "measure (\<lambda>(s, pick). nat (cur_row s))")
  show "wf (measure (\<lambda>(s, pick). nat (cur_row s)))" by simp
next
  fix s :: Tetris and pick :: "nat list" and x moved s1
  assume md: "move_down s pick = Inr x" and x: "(moved, s1) = x" and moved
  from md x \<open>moved\<close> have s1: "s1 = set_row (cur_row s - 1) s" and ok: "piece_en_cours s1"
    by (auto simp: move_down_def Let_def split: if_splits sum.splits)
  from ok have "0 \<le> cur_row s1"
    by (auto simp: piece_en_cours_def Let_def cur_row_def split: if_splits)
  with s1 have "0 \<le> cur_row s - 1"
    by (simp add: set_row_def cur_row_def)
  with s1 show "((s1, pick), (s, pick)) \<in> measure (\<lambda>(s, pick). nat (cur_row s))"
    by (simp add: set_row_def cur_row_def)
qed

declare drop.simps [simp del]

text \<open>\<open>n\<close> accepted calls of \<^verbatim>\<open>move_down\<close> in a row; \<open>None\<close> when one of them is
  rejected or raises.\<close>

fun descend :: "nat \<Rightarrow> Tetris \<Rightarrow> nat list \<Rightarrow> Tetris option" where
  "descend 0 s pick = Some s"
| "descend (Suc n) s pick =
     (case move_down s pick of
        Inr (True, s1) \<Rightarrow> descend n s1 pick
      | _ \<Rightarrow> None)"

subsection \<open>Reachable states\<close>

text \<open>
  A session starts from the constructor, with any dimensions and starting level, and
  proceeds by the controller's operations; a restart is the driver's \<^verbatim>\<open>t.__init__()\<close>
  with the default arguments. Every random choice is some entry of the shape table.
  A step that raises leaves no state behind. \<^verbatim>\<open>drop\<close> is a sequence of
  \<^verbatim>\<open>move_down\<close> steps and needs no rule of its own.
\<close>

inductive reachable :: "Tetris \<Rightarrow> bool" where
  r_init: "pick \<in> set SHAPES \<Longrightarrow> Tetris_init None h w lvl pick = Inr s \<Longrightarrow> reachable s"
| r_restart: "reachable s \<Longrightarrow> pick \<in> set SHAPES \<Longrightarrow>
     Tetris_init (can_hold s) 20 10 0 pick = Inr s' \<Longrightarrow> reachable s'"
| r_move_down: "reachable s \<Longrightarrow> pick \<in> set SHAPES \<Longrightarrow>
     move_down s pick = Inr (moved, s') \<Longrightarrow> reachable s'"
| r_move_left: "reachable s \<Longrightarrow> reachable (move_left s)"
| r_move_right: "reachable s \<Longrightarrow> reachable (move_right s)"
| r_rot_right: "reachable s \<Longrightarrow> reachable (rot_right s)"
| r_rot_left: "reachable s \<Longrightarrow> reachable (rot_left s)"
| r_hold: "reachable s \<Longrightarrow> pick \<in> set SHAPES \<Longrightarrow> hold s pick = Inr s' \<Longrightarrow> reachable s'"

section \<open>Cells: what the bitmasks stand for\<close>

text \<open>
  The occupied cells of a piece, as (row, column) pairs: layer \<open>i\<close> of the current
  variant lies on row \<open>loc.row + i\<close>, and its bit \<open>j\<close> on column \<open>loc.col - width + j\<close>,
  the column the shift of \<^verbatim>\<open>get_bits\<close> moves it to. A locked cell is a set bit of a
  stored board row.
\<close>

definition piece_cells :: "Piece \<Rightarrow> (int \<times> int) list" where
  "piece_cells p =
     concat (map (\<lambda>i. map (\<lambda>j. (row (loc p) + int i, col (loc p) - int (get_width p) + int j))
                          (filter (\<lambda>j. bit (shapes p (rot p) ! i) j)
                                  [0..<bit_length (shapes p (rot p) ! i)]))
                 [0..<length (shapes p (rot p))])"

definition locked_cell :: "Tetris \<Rightarrow> int \<times> int \<Rightarrow> bool" where
  "locked_cell s rc =
     (case rc of (r, c) \<Rightarrow>
        0 \<le> r \<and> 0 \<le> c \<and> nat r < length (board s) \<and> bit (board s ! nat r) (nat c))"

text \<open>The placement invariant of the current piece: every cell inside the columns
  \<open>[0, width)\<close>, on no row below row 0, and on no locked cell.\<close>

definition placement_ok :: "Tetris \<Rightarrow> bool" where
  "placement_ok s =
     list_all (\<lambda>rc. 0 \<le> snd rc \<and> snd rc < int (width s) \<and> 0 \<le> fst rc \<and> \<not> locked_cell s rc)
       (piece_cells (current_piece s))"

text \<open>Row \<open>i\<close> of a bottom-up row list, empty above its top.\<close>

definition row_at :: "nat list \<Rightarrow> nat \<Rightarrow> nat" where
  "row_at b i = (if i < length b then b ! i else 0)"

text \<open>
  A piece is consistent when its tables were computed from its variants, as
  \<^verbatim>\<open>Piece.__init__\<close> does, and a shape fills its bounding box when its bottom layer and
  its rightmost column are not empty (its leftmost column never is).
\<close>

definition consistent_piece :: "Piece \<Rightarrow> bool" where
  "consistent_piece p =
     (\<forall>d. widths p d = max_bit_length (shapes p d) \<and> heights p d = length (shapes p d))"

definition fills_box :: "nat list \<Rightarrow> bool" where
  "fills_box shape = (shape \<noteq> [] \<and> hd shape \<noteq> 0 \<and> list_ex odd shape)"

text \<open>
  A piece comes from the shape table when it is what the constructor builds from one of
  the seven shapes, up to its anchor and rotation state. The bounding box of the current
  piece is inside the board when the three tests on the anchor that open
  \<^verbatim>\<open>piece_en_cours\<close> pass.
\<close>

definition table_piece :: "Piece \<Rightarrow> bool" where
  "table_piece p = (\<exists>sh \<in> set SHAPES. Piece_init (loc p) sh = Inr (p\<lparr>rot := N\<rparr>))"

definition in_bounds :: "Tetris \<Rightarrow> bool" where
  "in_bounds s =
     (0 \<le> cur_row s \<and> cur_col s \<le> int (width s)
      \<and> 0 \<le> cur_col s - int (get_width (current_piece s)))"

section \<open>Example sessions\<close>

text \<open>
  A session on a board 4 wide and 4 high in which every shape drawn is the square.
  The first square is dropped in place and fills columns 0 and 1 of rows 0 and 1; the
  second is moved two columns to the left and lowered to the floor, where it completes
  both rows.
\<close>

definition ex_a0 :: Tetris where
  "ex_a0 = projr (Tetris_init None 4 4 0 [3, 3])"

definition ex_a1 :: Tetris where
  "ex_a1 = projr (drop ex_a0 [3, 3])"

definition ex_a2 :: Tetris where
  "ex_a2 = move_left (move_left ex_a1)"

definition ex_a3 :: Tetris where
  "ex_a3 = the (descend 2 ex_a2 [3, 3])"

definition ex_a4 :: Tetris where
  "ex_a4 = projr (stop_piece ex_a3 [3, 3])"

text \<open>
  A session on the default board. The line piece is put on hold, the square that
  replaces it is dropped, and the T piece that follows is swapped for the held line.
\<close>

definition ex_b0 :: Tetris where
  "ex_b0 = projr (Tetris_init None 20 10 0 [1, 1, 1, 1])"

definition ex_b1 :: Tetris where
  "ex_b1 = projr (hold ex_b0 [3, 3])"

definition ex_b2 :: Tetris where
  "ex_b2 = projr (drop ex_b1 [2, 7])"

definition ex_b3 :: Tetris where
  "ex_b3 = projr (hold ex_b2 [3, 3])"



definition ex_d1 :: Tetris where
  "ex_d1 = the (descend 16 ex_b0 [3, 3])"

definition ex_d2 :: Tetris where
  "ex_d2 = projr (stop_piece ex_d1 [3, 3])"

definition ex_d3 :: Tetris where
  "ex_d3 = the (descend 14 ex_d2 [3, 3])"

text \<open>
  The small board with both squares stacked in the spawn columns, as the merge of the
  second lock leaves it, and the state after the spawn that follows. And a fresh session
  on a board 2 wide whose first shape is the S.
\<close>

definition ex_full :: Tetris where
  "ex_full = ex_a1\<lparr>board := [3, 3, 3, 3]\<rparr>"

definition ex_over :: Tetris where
  "ex_over = projr (add_piece ex_full [3, 3])"

definition ex_c0 :: Tetris where
  "ex_c0 = projr (Tetris_init None 20 2 0 [6, 3])"

text \<open>A fresh session on a board 1 high whose first shape is the square.\<close>

definition ex_c1 :: Tetris where
  "ex_c1 = projr (Tetris_init None 1 10 0 [3, 3])"

section \<open>Basic facts\<close>

lemma Piece_rot_left_right [simp]: "Piece_rot_left (Piece_rot_right p) = p"
proof -
  have "Dir_of ((Dir_value (Dir_of ((Dir_value (rot p) + 1) mod 4)) - 1) mod 4) = rot p"
    by (cases "rot p") (simp_all add: Dir_of_def)
  then show ?thesis
    by (simp add: Piece_rot_left_def Piece_rot_right_def)
qed

lemma Piece_rot_right_left [simp]: "Piece_rot_right (Piece_rot_left p) = p"
proof -
  have "Dir_of ((Dir_value (Dir_of ((Dir_value (rot p) - 1) mod 4)) + 1) mod 4) = rot p"
    by (cases "rot p") (simp_all add: Dir_of_def)
  then show ?thesis
    by (simp add: Piece_rot_left_def Piece_rot_right_def)
qed

lemma rot_Piece_rot_right:
  "rot (Piece_rot_right p) = (case rot p of N \<Rightarrow> E | E \<Rightarrow> S | S \<Rightarrow> W | W \<Rightarrow> N)"
  by (cases "rot p") (simp_all add: Piece_rot_right_def Dir_of_def)

lemma Piece_rot_right4:
  "Piece_rot_right (Piece_rot_right (Piece_rot_right (Piece_rot_right p))) = p"
proof -
  let ?f = "\<lambda>d. Dir_of ((Dir_value d + 1) mod 4)"
  have "?f (?f (?f (?f (rot p)))) = rot p"
    by (cases "rot p") (simp_all add: Dir_of_def)
  then show ?thesis
    by (simp add: Piece_rot_right_def)
qed

subsection \<open>What each operation leaves alone\<close>

lemma add_piece_cases:
  assumes "add_piece s shape = Inr s'"
  obtains p where
    "Piece_init \<lparr>row = int (height s) - int (length shape), col = int (width s div 2)\<rparr> shape = Inr p"
    "s' = s\<lparr>current_piece := p, game_over := game_over s \<or> \<not> piece_en_cours (s\<lparr>current_piece := p\<rparr>)\<rparr>"
  using assms
  by (auto simp: add_piece_def Let_def split: sum.splits if_splits)

lemma add_piece_frame:
  assumes "add_piece s shape = Inr s'"
  shows "board s' = board s" "width s' = width s" "height s' = height s"
    "FULL_ROW s' = FULL_ROW s" "hold_piece s' = hold_piece s" "can_hold s' = can_hold s"
    "cleared_lines s' = cleared_lines s" "starting_level s' = starting_level s"
  using assms by (auto elim!: add_piece_cases)

lemma length_filter_neq_count:
  "length (filter (\<lambda>x. x \<noteq> a) xs) + count_list xs a = length xs"
  by (induction xs) auto

lemma clear_rows_board: "board (clear_rows s) = filter (\<lambda>layer. layer \<noteq> FULL_ROW s) (board s)"
  by (simp add: clear_rows_def Let_def)

lemma clear_rows_cleared:
  "cleared_lines (clear_rows s) = cleared_lines s + count_list (board s) (FULL_ROW s)"
  using length_filter_neq_count [of "FULL_ROW s" "board s"]
  by (simp add: clear_rows_def Let_def)

lemma clear_rows_frame:
  "width (clear_rows s) = width s" "height (clear_rows s) = height s"
  "FULL_ROW (clear_rows s) = FULL_ROW s" "hold_piece (clear_rows s) = hold_piece s"
  "can_hold (clear_rows s) = can_hold s" "current_piece (clear_rows s) = current_piece s"
  "game_over (clear_rows s) = game_over s" "starting_level (clear_rows s) = starting_level s"
  by (simp_all add: clear_rows_def Let_def)

lemma stop_piece_cases:
  assumes "stop_piece s pick = Inr s'"
  obtains shape merged s1 where
    "get_bits (current_piece s) = Inr shape"
    "merge_loop (board s) (row (loc (current_piece s))) shape = Inr merged"
    "add_piece (clear_rows (s\<lparr>board := merged\<rparr>)) pick = Inr s1"
    "s' = s1\<lparr>can_hold := Some True\<rparr>"
  using assms
  by (auto simp: stop_piece_def next_piece_def split: sum.splits)

lemma set_row_restore:
  "set_row (cur_row (set_row (cur_row s - 1) s) + 1) (set_row (cur_row s - 1) s) = s"
  by (simp add: set_row_def cur_row_def)

lemma move_down_cases:
  assumes "move_down s pick = Inr (moved, s')"
  obtains (accepted) "moved" "piece_en_cours (set_row (cur_row s - 1) s)"
      "s' = set_row (cur_row s - 1) s"
    | (rejected) "\<not> moved" "\<not> piece_en_cours (set_row (cur_row s - 1) s)"
      "stop_piece s pick = Inr s'"
  using assms that
  by (auto simp: move_down_def Let_def set_row_restore split: if_splits sum.splits)


lemma move_down_rejected:
  "\<not> piece_en_cours (set_row (cur_row s - 1) s) \<Longrightarrow>
     move_down s pick = map_sum id (Pair False) (stop_piece s pick)"
  by (simp add: move_down_def Let_def set_row_restore split: sum.splits)

lemma set_row_frame [simp]:
  "board (set_row r s) = board s" "width (set_row r s) = width s"
  "height (set_row r s) = height s" "FULL_ROW (set_row r s) = FULL_ROW s"
  "hold_piece (set_row r s) = hold_piece s" "can_hold (set_row r s) = can_hold s"
  "game_over (set_row r s) = game_over s" "cleared_lines (set_row r s) = cleared_lines s"
  by (simp_all add: set_row_def)

lemma set_col_frame [simp]:
  "board (set_col c s) = board s" "width (set_col c s) = width s"
  "height (set_col c s) = height s" "FULL_ROW (set_col c s) = FULL_ROW s"
  "hold_piece (set_col c s) = hold_piece s" "can_hold (set_col c s) = can_hold s"
  "game_over (set_col c s) = game_over s" "cleared_lines (set_col c s) = cleared_lines s"
  by (simp_all add: set_col_def)

lemma move_frame [simp]:
  "board (move_left s) = board s" "width (move_left s) = width s"
  "height (move_left s) = height s" "FULL_ROW (move_left s) = FULL_ROW s"
  "hold_piece (move_left s) = hold_piece s" "can_hold (move_left s) = can_hold s"
  "game_over (move_left s) = game_over s"
  "board (move_right s) = board s" "width (move_right s) = width s"
  "height (move_right s) = height s" "FULL_ROW (move_right s) = FULL_ROW s"
  "hold_piece (move_right s) = hold_piece s" "can_hold (move_right s) = can_hold s"
  "game_over (move_right s) = game_over s"
  by (simp_all add: move_left_def move_right_def Let_def)

lemma rot_frame [simp]:
  "board (rot_right s) = board s" "width (rot_right s) = width s"
  "height (rot_right s) = height s" "FULL_ROW (rot_right s) = FULL_ROW s"
  "hold_piece (rot_right s) = hold_piece s" "can_hold (rot_right s) = can_hold s"
  "game_over (rot_right s) = game_over s"
  "board (rot_left s) = board s" "width (rot_left s) = width s"
  "height (rot_left s) = height s" "FULL_ROW (rot_left s) = FULL_ROW s"
  "hold_piece (rot_left s) = hold_piece s" "can_hold (rot_left s) = can_hold s"
  "game_over (rot_left s) = game_over s"
  by (simp_all add: rot_right_def rot_left_def Let_def)

lemma stop_piece_frame:
  assumes "stop_piece s pick = Inr s'"
  shows "width s' = width s" "height s' = height s" "FULL_ROW s' = FULL_ROW s"
    "hold_piece s' = hold_piece s"
  using assms by (auto elim!: stop_piece_cases add_piece_cases simp: clear_rows_frame)

lemma stop_piece_no_full_row:
  assumes "stop_piece s pick = Inr s'"
  shows "FULL_ROW s \<notin> set (board s')"
  using assms
  by (auto elim!: stop_piece_cases add_piece_cases simp: clear_rows_frame clear_rows_board)

lemma hold_frame:
  assumes "hold s pick = Inr s'"
  shows "board s' = board s" "width s' = width s" "height s' = height s"
    "FULL_ROW s' = FULL_ROW s" "cleared_lines s' = cleared_lines s"
  using assms
  by (auto simp: hold_def Let_def next_piece_def split: option.splits bool.splits sum.splits
      elim!: add_piece_cases)

lemma hold_held_cases:
  assumes "hold s pick = Inr s1" and "hold_piece s = Some held"
  obtains (swap) s0 where "can_hold s = Some True"
      "add_piece (s\<lparr>hold_piece := Some (current_piece s)\<rparr>) (shapes held N) = Inr s0"
      "s1 = s0\<lparr>can_hold := Some False\<rparr>"
    | (spent) "can_hold s = Some False" "s1 = s\<lparr>can_hold := Some False\<rparr>"
  using assms
  by (auto simp: hold_def Let_def split: option.splits bool.splits sum.splits)

lemma hold_result:
  assumes "hold s pick = Inr s1"
  shows "hold_piece s1 \<noteq> None \<and> can_hold s1 = Some False"
  using assms
  by (auto simp: hold_def Let_def next_piece_def split: option.splits bool.splits sum.splits
      dest: add_piece_frame)

lemma hold_spent: "hold_piece s \<noteq> None \<Longrightarrow> can_hold s = Some False \<Longrightarrow> hold s pick = Inr s"
  by (auto simp: hold_def)

lemma Tetris_init_fields:
  assumes "Tetris_init ch h w lvl pick = Inr s"
  shows "board s = []" "width s = w" "height s = h" "FULL_ROW s = 2 ^ w - 1"
    "hold_piece s = None" "\<not> game_over s" "cleared_lines s = 0" "can_hold s = ch"
  using assms by (auto simp: Tetris_init_def split: sum.splits)

subsection \<open>No full row is ever stored\<close>

lemma reachable_full_row:
  "reachable s \<Longrightarrow> FULL_ROW s = 2 ^ width s - 1 \<and> FULL_ROW s \<notin> set (board s)"
proof (induction rule: reachable.induct)
  case (r_init pick h w lvl s)
  then show ?case by (simp add: Tetris_init_fields)
next
  case (r_restart s pick s')
  then show ?case by (simp add: Tetris_init_fields)
next
  case (r_move_down s pick moved s')
  from r_move_down.hyps(3) show ?case
  proof (cases rule: move_down_cases)
    case accepted
    with r_move_down.IH show ?thesis by auto
  next
    case rejected
    have "FULL_ROW s' = FULL_ROW s" "width s' = width s" "FULL_ROW s \<notin> set (board s')"
      using rejected(3) by (simp_all add: stop_piece_frame stop_piece_no_full_row)
    with r_move_down.IH show ?thesis by metis
  qed
next
  case (r_hold s pick s')
  then show ?case by (auto simp: hold_frame)
qed auto

subsection \<open>Sequences of steps\<close>

lemma drop_reachable:
  "reachable s \<Longrightarrow> pick \<in> set SHAPES \<Longrightarrow> drop s pick = Inr s' \<Longrightarrow> reachable s'"
proof (induction s pick rule: drop.induct)
  case (1 s pick)
  from "1.prems"(3) obtain moved s1 where md: "move_down s pick = Inr (moved, s1)"
    by (subst (asm) drop.simps) (auto split: sum.splits)
  then have r1: "reachable s1"
    using "1.prems"(1,2) by (rule_tac r_move_down)
  show ?case
  proof (cases moved)
    case True
    with md "1.prems"(3) have "drop s1 pick = Inr s'"
      by (subst (asm) drop.simps) simp
    with "1.IH" [OF md refl True r1 "1.prems"(2)] show ?thesis by simp
  next
    case False
    with md "1.prems"(3) have "s' = s1"
      by (subst (asm) drop.simps) simp
    with r1 show ?thesis by simp
  qed
qed

lemma descend_reachable:
  "reachable s \<Longrightarrow> pick \<in> set SHAPES \<Longrightarrow> descend n s pick = Some s' \<Longrightarrow> reachable s'"
proof (induction n arbitrary: s)
  case 0
  then show ?case by simp
next
  case (Suc n)
  from Suc.prems(3) obtain s1 where md: "move_down s pick = Inr (True, s1)"
    and d: "descend n s1 pick = Some s'"
    by (auto split: sum.splits bool.splits)
  from Suc.prems(1,2) md have "reachable s1" by (rule r_move_down)
  from Suc.IH [OF this Suc.prems(2) d] show ?case .
qed

subsection \<open>The example sessions, evaluated\<close>

lemma square_in_SHAPES: "[3, 3] \<in> set SHAPES"
  by (simp add: SHAPES_def)

lemma line_in_SHAPES: "[1, 1, 1, 1] \<in> set SHAPES"
  by (simp add: SHAPES_def)

lemma tee_in_SHAPES: "[2, 7] \<in> set SHAPES"
  by (simp add: SHAPES_def)

lemma ex_a0: "Tetris_init None 4 4 0 [3, 3] = Inr ex_a0"
  unfolding ex_a0_def by (rule sum.collapse(2) [symmetric]) code_simp

lemma ex_a1: "drop ex_a0 [3, 3] = Inr ex_a1"
  unfolding ex_a1_def by (rule sum.collapse(2) [symmetric]) code_simp

lemma ex_a3: "descend 2 ex_a2 [3, 3] = Some ex_a3"
  unfolding ex_a3_def by (rule option.collapse [symmetric]) code_simp

lemma ex_a4: "stop_piece ex_a3 [3, 3] = Inr ex_a4"
  unfolding ex_a4_def by (rule sum.collapse(2) [symmetric]) code_simp

lemma reachable_ex_a3: "reachable ex_a3"
proof -
  have "reachable ex_a0"
    using square_in_SHAPES ex_a0 by (rule r_init)
  then have "reachable ex_a1"
    using square_in_SHAPES ex_a1 by (rule drop_reachable)
  then have "reachable ex_a2"
    unfolding ex_a2_def by (intro r_move_left)
  then show ?thesis
    using square_in_SHAPES ex_a3 by (rule descend_reachable)
qed

lemma ex_a3_on_floor: "\<not> piece_en_cours (set_row (cur_row ex_a3 - 1) ex_a3)"
  by code_simp

lemma ex_a3_values:
  "get_bits (current_piece ex_a3) = Inr [12, 12]"
  "merge_loop (board ex_a3) (row (loc (current_piece ex_a3))) [12, 12] = Inr [15, 15]"
  "FULL_ROW ex_a3 = 15" "width ex_a3 = 4" "board ex_a3 = [3, 3]" "cleared_lines ex_a3 = 0"
  by code_simp+

lemma ex_b0: "Tetris_init None 20 10 0 [1, 1, 1, 1] = Inr ex_b0"
  unfolding ex_b0_def by (rule sum.collapse(2) [symmetric]) code_simp

lemma ex_b1: "hold ex_b0 [3, 3] = Inr ex_b1"
  unfolding ex_b1_def by (rule sum.collapse(2) [symmetric]) code_simp

lemma ex_b2: "drop ex_b1 [2, 7] = Inr ex_b2"
  unfolding ex_b2_def by (rule sum.collapse(2) [symmetric]) code_simp

lemma ex_b3: "hold ex_b2 [3, 3] = Inr ex_b3"
  unfolding ex_b3_def by (rule sum.collapse(2) [symmetric]) code_simp

lemma reachable_ex_b2: "reachable ex_b2"
proof -
  have "reachable ex_b0"
    using line_in_SHAPES ex_b0 by (rule r_init)
  then have "reachable ex_b1"
    using square_in_SHAPES ex_b1 by (rule r_hold)
  then show ?thesis
    using tee_in_SHAPES ex_b2 by (rule drop_reachable)
qed

lemma ex_b2_held: "hold_piece ex_b2 = Some (the (hold_piece ex_b2))"
proof -
  have "\<not> Option.is_none (hold_piece ex_b2)" by code_simp
  then show ?thesis by (simp add: Option.is_none_def)
qed

lemma ex_b_values: "can_hold ex_b2 = Some True" "can_hold ex_b3 = Some False"
  "board ex_b2 = [24, 24]" "shapes (current_piece ex_b3) N = [1, 1, 1, 1]"
  "cur_row ex_b3 = 16"
  by code_simp+

subsection \<open>Binary digits\<close>

lemma bit_length_le_iff: "bit_length n \<le> k \<longleftrightarrow> n < 2 ^ k"
proof (induction n arbitrary: k rule: bit_length.induct)
  case (1 n)
  show ?case
  proof (cases "n = 0")
    case True
    then show ?thesis by (simp add: bit_length.simps)
  next
    case False
    show ?thesis
    proof (cases k)
      case 0
      with False show ?thesis by (simp add: bit_length.simps [of n])
    next
      case (Suc j)
      have "bit_length n \<le> Suc j \<longleftrightarrow> bit_length (n div 2) \<le> j"
        using False by (simp add: bit_length.simps [of n])
      also have "\<dots> \<longleftrightarrow> n div 2 < 2 ^ j"
        using "1.IH" [OF False] .
      also have "\<dots> \<longleftrightarrow> n < 2 ^ Suc j"
        by auto
      finally show ?thesis using Suc by simp
    qed
  qed
qed

lemma bit_length_0 [simp]: "bit_length 0 = 0"
  by (simp add: bit_length.simps)

lemma bit_length_eq_0_iff [simp]: "bit_length n = 0 \<longleftrightarrow> n = 0"
  by (simp add: bit_length.simps [of n])

lemma bit_length_pos: "n \<noteq> 0 \<Longrightarrow> 0 < bit_length n"
  by (simp add: bit_length.simps [of n])

lemma bit_length_Suc_0 [simp]: "bit_length (Suc 0) = Suc 0"
  by (simp add: bit_length.simps [of "Suc 0"])

lemma bit_imp_less_bit_length:
  assumes "bit n j"
  shows "j < bit_length n"
proof (rule ccontr)
  assume "\<not> j < bit_length n"
  then have "n < 2 ^ j"
    by (simp add: bit_length_le_iff [symmetric])
  then have "n div 2 ^ j = 0"
    by simp
  with assms show False
    by (simp add: bit_iff_odd)
qed

lemma bit_top: "n \<noteq> 0 \<Longrightarrow> bit n (bit_length n - 1)"
proof (induction n rule: bit_length.induct)
  case (1 n)
  show ?case
  proof (cases "n div 2 = 0")
    case True
    with "1.prems" have "n = 1" by (cases n) auto
    then show ?thesis by (simp add: bit_0)
  next
    case False
    with "1.IH" "1.prems" have ih: "bit (n div 2) (bit_length (n div 2) - 1)"
      by simp
    from False have pos: "0 < bit_length (n div 2)"
      by (simp add: bit_length.simps [of "n div 2"])
    have "bit_length n - 1 = Suc (bit_length (n div 2) - 1)"
      using "1.prems" pos by (simp add: bit_length.simps [of n])
    with ih show ?thesis
      by (simp add: bit_Suc)
  qed
qed

lemma length_bin_str: "length (bin_str n) = max 1 (bit_length n)"
proof (induction n rule: bin_str.induct)
  case (1 n)
  show ?case
  proof (cases "n < 2")
    case True
    then have "n = 0 \<or> n = 1" by auto
    then show ?thesis
      by (auto simp: bin_str.simps [of n])
  next
    case False
    then have "n div 2 \<noteq> 0" by auto
    then have "0 < bit_length (n div 2)"
      by (simp add: bit_length.simps [of "n div 2"])
    with False "1.IH" show ?thesis
      by (simp add: bin_str.simps [of n] bit_length.simps [of n])
  qed
qed

lemma nth_bin_str:
  "k < length (bin_str n) \<Longrightarrow> bin_str n ! k = bit_char (bit n (length (bin_str n) - 1 - k))"
proof (induction n arbitrary: k rule: bin_str.induct)
  case (1 n)
  show ?case
  proof (cases "n < 2")
    case True
    then have "n = 0 \<or> n = 1" by auto
    with "1.prems" show ?thesis
      by (auto simp: bin_str.simps [of n] bit_0)
  next
    case False
    let ?m = "length (bin_str (n div 2))"
    have eq: "bin_str n = bin_str (n div 2) @ [bit_char (n mod 2 = 1)]"
      using False by (simp add: bin_str.simps [of n])
    show ?thesis
    proof (cases "k < ?m")
      case True
      have "bin_str n ! k = bin_str (n div 2) ! k"
        using True by (simp add: eq nth_append)
      also have "\<dots> = bit_char (bit (n div 2) (?m - 1 - k))"
        using "1.IH" [OF False True] .
      also have "bit (n div 2) (?m - 1 - k) = bit n (Suc (?m - 1 - k))"
        by (simp add: bit_Suc)
      also have "Suc (?m - 1 - k) = length (bin_str n) - 1 - k"
        using True by (simp add: eq)
      finally show ?thesis .
    next
      case False
      with "1.prems" have "k = ?m" by (simp add: eq)
      then show ?thesis
        by (simp add: eq nth_append bit_0 odd_iff_mod_2_eq_one)
    qed
  qed
qed


lemma length_format_bin:
  "bit_length n \<le> w \<Longrightarrow> 0 < w \<Longrightarrow> length (format_bin w n) = w"
  by (auto simp: format_bin_def length_bin_str)

lemma nth_format_bin:
  assumes "bit_length n \<le> w" and "0 < w" and "k < w"
  shows "format_bin w n ! k = bit_char (bit n (w - 1 - k))"
proof -
  let ?m = "length (bin_str n)"
  have m: "?m \<le> w" "bit_length n \<le> ?m"
    using assms by (auto simp: length_bin_str)
  show ?thesis
  proof (cases "k < w - ?m")
    case True
    then have "bit_length n \<le> w - 1 - k"
      using m by simp
    then have "\<not> bit n (w - 1 - k)"
      using bit_imp_less_bit_length [of n "w - 1 - k"] by auto
    with True show ?thesis
      by (simp add: format_bin_def nth_append bit_char_def)
  next
    case False
    then have "format_bin w n ! k = bin_str n ! (k - (w - ?m))"
      by (simp add: format_bin_def nth_append)
    also have "\<dots> = bit_char (bit n (?m - 1 - (k - (w - ?m))))"
      using False assms m by (intro nth_bin_str) simp
    also have "?m - 1 - (k - (w - ?m)) = w - 1 - k"
      using False assms m by simp
    finally show ?thesis .
  qed
qed

lemma int_base2_snoc:
  "int_base2 (s @ [c]) = 2 * int_base2 s + (if c = CHR ''1'' then 1 else 0)"
  by (simp add: int_base2_def)

lemma int_base2_less: "int_base2 s < 2 ^ length s"
proof (induction s rule: rev_induct)
  case Nil
  then show ?case by (simp add: int_base2_def)
next
  case (snoc c s)
  then show ?case by (simp add: int_base2_snoc)
qed

lemma bit_int_base2:
  "i < length s \<Longrightarrow> bit (int_base2 s) i \<longleftrightarrow> s ! (length s - 1 - i) = CHR ''1''"
proof (induction s arbitrary: i rule: rev_induct)
  case Nil
  then show ?case by simp
next
  case (snoc c s)
  show ?case
  proof (cases i)
    case 0
    then show ?thesis
      by (simp add: int_base2_snoc bit_0)
  next
    case (Suc j)
    with snoc.prems have j: "j < length s" by simp
    have "bit (int_base2 (s @ [c])) i \<longleftrightarrow> bit (int_base2 s) j"
      unfolding Suc int_base2_snoc by (simp add: bit_Suc)
    also have "\<dots> \<longleftrightarrow> s ! (length s - 1 - j) = CHR ''1''"
      using snoc.IH [OF j] .
    also have "s ! (length s - 1 - j) = (s @ [c]) ! (length (s @ [c]) - 1 - i)"
    proof -
      have "length s - Suc j < length s" using j by arith
      then show ?thesis using Suc by (simp add: nth_append)
    qed
    finally show ?thesis .
  qed
qed

lemma bit_char_eq_1 [simp]: "bit_char b = CHR ''1'' \<longleftrightarrow> b"
  by (simp add: bit_char_def)

lemma zip_star_rect:
  assumes "rows \<noteq> []" and "\<forall>r \<in> set rows. length r = w"
  shows "zip_star rows = map (\<lambda>k. map (\<lambda>r. r ! k) rows) [0..<w]"
proof -
  from assms have "set (map length rows) = {w}"
    by (cases rows) auto
  with assms(1) show ?thesis
    by (simp add: zip_star_def)
qed


lemma bit_length_le_max: "layer \<in> set shape \<Longrightarrow> bit_length layer \<le> max_bit_length shape"
  by (simp add: max_bit_length_def)

lemma max_bit_length_le: "shape \<noteq> [] \<Longrightarrow> (\<forall>layer \<in> set shape. bit_length layer \<le> m) \<Longrightarrow> max_bit_length shape \<le> m"
  by (simp add: max_bit_length_def)

lemma max_bit_length_in: "shape \<noteq> [] \<Longrightarrow> \<exists>layer \<in> set shape. bit_length layer = max_bit_length shape"
proof -
  assume "shape \<noteq> []"
  then have "Max (set (map bit_length shape)) \<in> set (map bit_length shape)"
    by (intro Max_in) simp_all
  then show ?thesis
    by (auto simp: max_bit_length_def)
qed

lemma rotation_rows:
  assumes "shape \<noteq> []" and "0 < max_bit_length shape"
  shows "rotation shape =
     Inr (map (\<lambda>k. int_base2 (map (\<lambda>r. r ! k) (rev (map (format_bin (max_bit_length shape)) shape))))
            [0..<max_bit_length shape])"
proof -
  let ?w = "max_bit_length shape"
  let ?rows = "rev (map (format_bin ?w) shape)"
  have "\<forall>r \<in> set ?rows. length r = ?w"
    using assms(2) by (auto simp: length_format_bin bit_length_le_max)
  moreover have "?rows \<noteq> []"
    using assms(1) by simp
  ultimately have "zip_star ?rows = map (\<lambda>k. map (\<lambda>r. r ! k) ?rows) [0..<?w]"
    by (rule zip_star_rect [rotated])
  with assms(1) show ?thesis
    by (simp add: rotation_def Let_def)
qed

lemma bit_rotation_row:
  assumes "k < max_bit_length shape" and "i < length shape"
  shows "bit (int_base2 (map (\<lambda>r. r ! k) (rev (map (format_bin (max_bit_length shape)) shape)))) i
         \<longleftrightarrow> bit (shape ! i) (max_bit_length shape - 1 - k)"
proof -
  let ?w = "max_bit_length shape"
  let ?h = "length shape"
  let ?strs = "map (format_bin ?w) shape"
  let ?col = "map (\<lambda>r. r ! k) (rev ?strs)"
  have i': "?h - 1 - i < ?h" using assms(2) by arith
  have "bit (int_base2 ?col) i \<longleftrightarrow> ?col ! (length ?col - 1 - i) = CHR ''1''"
    using assms(2) by (intro bit_int_base2) simp
  also have "?col ! (length ?col - 1 - i) = (rev ?strs ! (?h - 1 - i)) ! k"
    using i' by simp
  also have "rev ?strs ! (?h - 1 - i) = ?strs ! i"
    using assms(2) i' by (simp add: rev_nth)
  also have "?strs ! i = format_bin ?w (shape ! i)"
    using assms(2) by simp
  also have "format_bin ?w (shape ! i) ! k = bit_char (bit (shape ! i) (?w - 1 - k))"
    using assms by (intro nth_format_bin) (simp_all add: bit_length_le_max)
  finally show ?thesis by simp
qed

subsection \<open>The box test and the cells\<close>

lemma and_eq_0_iff_nat: "(x :: nat) AND y = 0 \<longleftrightarrow> (\<forall>j. \<not> (bit x j \<and> bit y j))"
  by (auto simp: bit_eq_iff bit_and_iff)

lemma overlap_loop_iff:
  "0 \<le> r \<Longrightarrow>
     overlap_loop b r ls \<longleftrightarrow>
       (\<forall>i < length ls. nat r + i < length b \<longrightarrow> (b ! (nat r + i)) AND (ls ! i) = 0)"
proof (induction ls arbitrary: r)
  case Nil
  then show ?case by simp
next
  case (Cons layer ls)
  show ?case
  proof (cases "r \<ge> int (length b)")
    case True
    with Cons.prems have "\<And>i. \<not> nat r + i < length b" by auto
    with True show ?thesis by simp
  next
    case False
    have step: "nat (r + 1) = Suc (nat r)" using Cons.prems by simp
    have ih: "overlap_loop b (r + 1) ls \<longleftrightarrow>
       (\<forall>i < length ls. Suc (nat r + i) < length b \<longrightarrow> (b ! Suc (nat r + i)) AND (ls ! i) = 0)"
      using Cons.IH [of "r + 1"] Cons.prems by (simp add: step)
    have "(\<forall>i < length (layer # ls). nat r + i < length b \<longrightarrow> (b ! (nat r + i)) AND ((layer # ls) ! i) = 0)
      \<longleftrightarrow> ((nat r < length b \<longrightarrow> (b ! nat r) AND layer = 0)
          \<and> (\<forall>i < length ls. Suc (nat r + i) < length b \<longrightarrow> (b ! Suc (nat r + i)) AND (ls ! i) = 0))"
      by (auto simp: less_Suc_eq_0_disj)
    with False ih Cons.prems show ?thesis
      by auto
  qed
qed


lemma in_piece_cells:
  "(r, c) \<in> set (piece_cells p) \<longleftrightarrow>
     (\<exists>i j. i < length (shapes p (rot p)) \<and> bit (shapes p (rot p) ! i) j
          \<and> r = row (loc p) + int i \<and> c = col (loc p) - int (get_width p) + int j)"
proof
  assume "(r, c) \<in> set (piece_cells p)"
  then show "\<exists>i j. i < length (shapes p (rot p)) \<and> bit (shapes p (rot p) ! i) j
          \<and> r = row (loc p) + int i \<and> c = col (loc p) - int (get_width p) + int j"
    by (auto simp: piece_cells_def)
next
  assume "\<exists>i j. i < length (shapes p (rot p)) \<and> bit (shapes p (rot p) ! i) j
          \<and> r = row (loc p) + int i \<and> c = col (loc p) - int (get_width p) + int j"
  then obtain i j where ij: "i < length (shapes p (rot p))" "bit (shapes p (rot p) ! i) j"
    "r = row (loc p) + int i" "c = col (loc p) - int (get_width p) + int j"
    by blast
  from ij(2) have "j < bit_length (shapes p (rot p) ! i)"
    by (rule bit_imp_less_bit_length)
  with ij show "(r, c) \<in> set (piece_cells p)"
    by (auto simp: piece_cells_def intro!: bexI [of _ i] image_eqI [of _ _ j])
qed

lemma placement_ok_iff:
  "placement_ok s \<longleftrightarrow>
     (\<forall>i j. i < length (shapes (current_piece s) (rot (current_piece s)))
            \<and> bit (shapes (current_piece s) (rot (current_piece s)) ! i) j \<longrightarrow>
        0 \<le> cur_col s - int (get_width (current_piece s)) + int j
      \<and> cur_col s - int (get_width (current_piece s)) + int j < int (width s)
      \<and> 0 \<le> cur_row s + int i
      \<and> \<not> locked_cell s (cur_row s + int i, cur_col s - int (get_width (current_piece s)) + int j))"
  (is "_ \<longleftrightarrow> ?R")
proof
  assume ok: "placement_ok s"
  show ?R
  proof (intro allI impI)
    fix i j
    assume "i < length (shapes (current_piece s) (rot (current_piece s)))
            \<and> bit (shapes (current_piece s) (rot (current_piece s)) ! i) j"
    then have "(cur_row s + int i, cur_col s - int (get_width (current_piece s)) + int j)
        \<in> set (piece_cells (current_piece s))"
      unfolding in_piece_cells cur_row_def cur_col_def by blast
    with ok show "0 \<le> cur_col s - int (get_width (current_piece s)) + int j
      \<and> cur_col s - int (get_width (current_piece s)) + int j < int (width s)
      \<and> 0 \<le> cur_row s + int i
      \<and> \<not> locked_cell s (cur_row s + int i, cur_col s - int (get_width (current_piece s)) + int j)"
      unfolding placement_ok_def list_all_iff by fastforce
  qed
next
  assume R: ?R
  show "placement_ok s"
    unfolding placement_ok_def list_all_iff
  proof
    fix rc
    assume "rc \<in> set (piece_cells (current_piece s))"
    moreover obtain r c where "rc = (r, c)" by (cases rc)
    ultimately have "(r, c) \<in> set (piece_cells (current_piece s))" and "rc = (r, c)"
      by simp_all
    then obtain i j where ij: "i < length (shapes (current_piece s) (rot (current_piece s)))"
      "bit (shapes (current_piece s) (rot (current_piece s)) ! i) j"
      "rc = (cur_row s + int i, cur_col s - int (get_width (current_piece s)) + int j)"
      unfolding in_piece_cells cur_row_def cur_col_def by auto
    with R show "0 \<le> snd rc \<and> snd rc < int (width s) \<and> 0 \<le> fst rc \<and> \<not> locked_cell s rc"
      by simp
  qed
qed

lemma bit_shift_layers:
  "i < length (shapes p (rot p)) \<Longrightarrow>
     bit (shift_layers p ! i) j \<longleftrightarrow>
       nat (col (loc p) - int (get_width p)) \<le> j
     \<and> bit (shapes p (rot p) ! i) (j - nat (col (loc p) - int (get_width p)))"
  by (simp add: shift_layers_def bit_push_bit_iff)

lemma length_shift_layers [simp]: "length (shift_layers p) = length (shapes p (rot p))"
  by (simp add: shift_layers_def)

lemma piece_en_cours_iff:
  "piece_en_cours s \<longleftrightarrow>
     0 \<le> cur_row s \<and> cur_col s \<le> int (width s)
   \<and> 0 \<le> cur_col s - int (get_width (current_piece s))
   \<and> (\<forall>i < length (shapes (current_piece s) (rot (current_piece s))).
         nat (cur_row s) + i < length (board s) \<longrightarrow>
         (board s ! (nat (cur_row s) + i)) AND (shift_layers (current_piece s) ! i) = 0)"
  by (auto simp: piece_en_cours_def Let_def cur_row_def cur_col_def overlap_loop_iff)


lemma nonzero_has_bit: "(n :: nat) \<noteq> 0 \<Longrightarrow> \<exists>j. bit n j"
  using bit_top by blast

text \<open>What \<^verbatim>\<open>piece_en_cours\<close> accepts is a valid placement of the cells.\<close>

lemma piece_en_cours_placement_ok:
  assumes pe: "piece_en_cours s"
    and w: "get_width (current_piece s) = max_bit_length (shapes (current_piece s) (rot (current_piece s)))"
  shows "placement_ok s"
proof -
  let ?p = "current_piece s"
  let ?ls = "shapes ?p (rot ?p)"
  let ?k = "cur_col s - int (get_width ?p)"
  from pe have r0: "0 \<le> cur_row s" and cw: "cur_col s \<le> int (width s)" and k0: "0 \<le> ?k"
    and ov: "\<And>i. i < length ?ls \<Longrightarrow> nat (cur_row s) + i < length (board s) \<Longrightarrow>
              (board s ! (nat (cur_row s) + i)) AND (shift_layers ?p ! i) = 0"
    unfolding piece_en_cours_iff by blast+
  show ?thesis
    unfolding placement_ok_iff
  proof (intro allI impI)
    fix i j
    assume "i < length ?ls \<and> bit (?ls ! i) j"
    then have i: "i < length ?ls" and b: "bit (?ls ! i) j" by blast+
    from b have "j < bit_length (?ls ! i)" by (rule bit_imp_less_bit_length)
    also have "bit_length (?ls ! i) \<le> max_bit_length ?ls"
      using i by (intro bit_length_le_max) simp
    finally have jw: "j < get_width ?p" using w by simp
    have "\<not> locked_cell s (cur_row s + int i, ?k + int j)"
    proof
      assume "locked_cell s (cur_row s + int i, ?k + int j)"
      then have l: "nat (cur_row s + int i) < length (board s)"
        and lb: "bit (board s ! nat (cur_row s + int i)) (nat (?k + int j))"
        by (simp_all add: locked_cell_def)
      have ri: "nat (cur_row s + int i) = nat (cur_row s) + i"
        using r0 by simp
      have kj: "nat (?k + int j) = nat ?k + j"
        using k0 by simp
      from ov [OF i] l have "(board s ! (nat (cur_row s) + i)) AND (shift_layers ?p ! i) = 0"
        by (simp add: ri)
      then have "\<not> (bit (board s ! (nat (cur_row s) + i)) (nat ?k + j)
                  \<and> bit (shift_layers ?p ! i) (nat ?k + j))"
        unfolding and_eq_0_iff_nat by blast
      moreover have "bit (shift_layers ?p ! i) (nat ?k + j)"
        using i b by (simp add: bit_shift_layers cur_col_def)
      ultimately show False
        using lb by (simp add: ri kj)
    qed
    with r0 k0 cw jw
    show "0 \<le> ?k + int j \<and> ?k + int j < int (width s) \<and> 0 \<le> cur_row s + int i
          \<and> \<not> locked_cell s (cur_row s + int i, ?k + int j)"
      by simp
  qed
qed

text \<open>For a shape that fills its bounding box the converse holds: a placement of the
  cells that is valid passes the test on the box.\<close>

lemma placement_ok_piece_en_cours:
  assumes ok: "placement_ok s"
    and w: "get_width (current_piece s) = max_bit_length (shapes (current_piece s) (rot (current_piece s)))"
    and fb: "fills_box (shapes (current_piece s) (rot (current_piece s)))"
  shows "piece_en_cours s"
proof -
  let ?p = "current_piece s"
  let ?ls = "shapes ?p (rot ?p)"
  let ?w = "get_width ?p"
  let ?k = "cur_col s - int ?w"
  from ok have cell: "\<And>i j. i < length ?ls \<Longrightarrow> bit (?ls ! i) j \<Longrightarrow>
        0 \<le> ?k + int j \<and> ?k + int j < int (width s) \<and> 0 \<le> cur_row s + int i
      \<and> \<not> locked_cell s (cur_row s + int i, ?k + int j)"
    unfolding placement_ok_iff by blast
  from fb have ne: "?ls \<noteq> []" and hd0: "hd ?ls \<noteq> 0" and od: "list_ex odd ?ls"
    by (simp_all add: fills_box_def)
  have len: "0 < length ?ls" using ne by simp
  have hd: "hd ?ls = ?ls ! 0" using ne by (simp add: hd_conv_nth)
  from nonzero_has_bit [OF hd0] obtain j0 where "bit (?ls ! 0) j0"
    unfolding hd by blast
  from cell [OF len this] have r0: "0 \<le> cur_row s" by simp
  from od obtain i1 where i1: "i1 < length ?ls" "odd (?ls ! i1)"
    by (auto simp: list_ex_iff in_set_conv_nth)
  then have "bit (?ls ! i1) 0" by (simp add: bit_0)
  from cell [OF i1(1) this] have k0: "0 \<le> ?k" by simp
  from max_bit_length_in [OF ne] obtain i2 where i2: "i2 < length ?ls"
    "bit_length (?ls ! i2) = max_bit_length ?ls"
    by (auto simp: in_set_conv_nth)
  have "hd ?ls \<in> set ?ls" using ne by simp
  from bit_length_le_max [OF this] bit_length_pos [OF hd0] have wpos: "0 < max_bit_length ?ls"
    by arith
  have "?ls ! i2 \<noteq> 0"
  proof
    assume "?ls ! i2 = 0"
    then have "bit_length (?ls ! i2) = 0" by simp
    with i2(2) wpos show False by simp
  qed
  from bit_top [OF this] have "bit (?ls ! i2) (?w - 1)"
    unfolding i2(2) w .
  from cell [OF i2(1) this] wpos w have cw: "cur_col s \<le> int (width s)"
    by simp
  have ov: "(board s ! (nat (cur_row s) + i)) AND (shift_layers ?p ! i) = 0"
    if i: "i < length ?ls" and l: "nat (cur_row s) + i < length (board s)" for i
    unfolding and_eq_0_iff_nat
  proof (intro allI notI)
    fix j'
    assume both: "bit (board s ! (nat (cur_row s) + i)) j' \<and> bit (shift_layers ?p ! i) j'"
    then have kj: "nat ?k \<le> j'" and bl: "bit (?ls ! i) (j' - nat ?k)"
      using i by (simp_all add: bit_shift_layers cur_col_def)
    have c: "?k + int (j' - nat ?k) = int j'"
      using k0 kj by simp
    have "locked_cell s (cur_row s + int i, ?k + int (j' - nat ?k))"
      unfolding c using both l r0 by (simp add: locked_cell_def nat_add_distrib)
    with cell [OF i bl] show False by blast
  qed
  from r0 cw k0 ov show ?thesis
    unfolding piece_en_cours_iff by blast
qed

subsection \<open>Pieces of the shape table\<close>

lemma rotation_nonempty:
  assumes "shape \<noteq> []"
  shows "\<exists>r. rotation shape = Inr r \<and> r \<noteq> []"
proof -
  let ?rows = "rev (map (format_bin (max_bit_length shape)) shape)"
  have ne: "?rows \<noteq> []" using assms by simp
  have "0 < length (format_bin w n)" for w n
  proof -
    have "0 < length (bin_str n)" by (simp add: length_bin_str max_def)
    then show ?thesis by (simp add: format_bin_def)
  qed
  then have "\<forall>n \<in> set (map length ?rows). 0 < n"
    by auto
  moreover have "Min (set (map length ?rows)) \<in> set (map length ?rows)"
    using ne by (intro Min_in) simp_all
  ultimately have "0 < Min (set (map length ?rows))"
    by blast
  then have "zip_star ?rows \<noteq> []"
    using ne by (simp add: zip_star_def)
  with assms show ?thesis
    by (simp add: rotation_def Let_def)
qed

lemma Piece_init_total:
  assumes "shape \<noteq> []"
  shows "\<exists>p. Piece_init l shape = Inr p"
proof -
  from rotation_nonempty [OF assms] obtain r1 where r1: "rotation shape = Inr r1" "r1 \<noteq> []"
    by blast
  from rotation_nonempty [OF r1(2)] obtain r2 where r2: "rotation r1 = Inr r2" "r2 \<noteq> []"
    by blast
  from rotation_nonempty [OF r2(2)] obtain r3 where r3: "rotation r2 = Inr r3" "r3 \<noteq> []"
    by blast
  from r1 r2 r3 show ?thesis
    by (simp add: Piece_init_def Let_def)
qed

lemma Piece_init_fields:
  assumes "Piece_init l shape = Inr p"
  shows "loc p = l" "rot p = N" "shapes p N = shape" "consistent_piece p"
  using assms
  by (auto simp: Piece_init_def Let_def consistent_piece_def shapes_dict_def split: sum.splits)

lemma Piece_init_loc:
  assumes "Piece_init l shape = Inr p"
  shows "Piece_init l' shape = Inr (p\<lparr>loc := l'\<rparr>)"
  using assms
  by (auto simp: Piece_init_def Let_def split: sum.splits)

subsection \<open>Invariants of the reachable states\<close>

lemma SHAPES_facts:
  assumes "sh \<in> set SHAPES"
  shows "sh \<noteq> []" "max_bit_length sh \<le> 3" "length sh \<le> 4" "fills_box sh"
proof -
  have "list_all (\<lambda>sh. sh \<noteq> [] \<and> max_bit_length sh \<le> 3 \<and> length sh \<le> 4 \<and> fills_box sh) SHAPES"
    by code_simp
  with assms show "sh \<noteq> []" "max_bit_length sh \<le> 3" "length sh \<le> 4" "fills_box sh"
    by (simp_all add: list_all_iff)
qed

lemma table_piece_init:
  assumes "sh \<in> set SHAPES" and "Piece_init l sh = Inr p"
  shows "table_piece p"
proof -
  from Piece_init_fields(1,2) [OF assms(2)] have "p\<lparr>rot := N\<rparr> = p" "loc p = l"
    by simp_all
  with assms show ?thesis
    unfolding table_piece_def by auto
qed

lemma table_piece_loc [simp]: "table_piece (p\<lparr>loc := l\<rparr>) = table_piece p"
proof -
  have "Piece_init l sh = Inr (p\<lparr>loc := l, rot := N\<rparr>) \<longleftrightarrow> Piece_init (loc p) sh = Inr (p\<lparr>rot := N\<rparr>)"
    for sh
  proof
    assume "Piece_init l sh = Inr (p\<lparr>loc := l, rot := N\<rparr>)"
    from Piece_init_loc [OF this, of "loc p"] show "Piece_init (loc p) sh = Inr (p\<lparr>rot := N\<rparr>)"
      by simp
  next
    assume "Piece_init (loc p) sh = Inr (p\<lparr>rot := N\<rparr>)"
    from Piece_init_loc [OF this, of l] show "Piece_init l sh = Inr (p\<lparr>loc := l, rot := N\<rparr>)"
      by simp
  qed
  then show ?thesis
    by (simp add: table_piece_def)
qed

lemma table_piece_rot [simp]: "table_piece (p\<lparr>rot := d\<rparr>) = table_piece p"
  by (simp add: table_piece_def)

lemma table_piece_rot_right [simp]: "table_piece (Piece_rot_right p) = table_piece p"
  by (simp add: Piece_rot_right_def)

lemma table_piece_rot_left [simp]: "table_piece (Piece_rot_left p) = table_piece p"
  by (simp add: Piece_rot_left_def)

lemma table_piece_shape:
  assumes "table_piece p"
  shows "shapes p N \<in> set SHAPES" "consistent_piece p"
proof -
  from assms obtain sh where sh: "sh \<in> set SHAPES" "Piece_init (loc p) sh = Inr (p\<lparr>rot := N\<rparr>)"
    unfolding table_piece_def by blast
  from Piece_init_fields(3,4) [OF sh(2)] sh(1)
  show "shapes p N \<in> set SHAPES" "consistent_piece p"
    by (simp_all add: consistent_piece_def)
qed

lemma add_piece_table:
  assumes "sh \<in> set SHAPES"
  shows "\<exists>s'. add_piece s sh = Inr s'"
    and "add_piece s sh = Inr s' \<Longrightarrow> table_piece (current_piece s')"
proof -
  from Piece_init_total [OF SHAPES_facts(1) [OF assms]]
  obtain p where
    "Piece_init \<lparr>row = int (height s) - int (length sh), col = int (width s div 2)\<rparr> sh = Inr p"
    by blast
  then show "\<exists>s'. add_piece s sh = Inr s'"
    by (simp add: add_piece_def Let_def)
  assume "add_piece s sh = Inr s'"
  then show "table_piece (current_piece s')"
    using assms by (auto elim!: add_piece_cases intro: table_piece_init)
qed

lemma current_piece_set_row [simp]:
  "current_piece (set_row r s) = (current_piece s)\<lparr>loc := (loc (current_piece s))\<lparr>row := r\<rparr>\<rparr>"
  by (simp add: set_row_def)

lemma current_piece_set_col [simp]:
  "current_piece (set_col c s) = (current_piece s)\<lparr>loc := (loc (current_piece s))\<lparr>col := c\<rparr>\<rparr>"
  by (simp add: set_col_def)

lemma move_left_cases:
  obtains (rejected) "\<not> piece_en_cours (set_col (cur_col s + 1) s)" "move_left s = s"
  | (accepted) "piece_en_cours (set_col (cur_col s + 1) s)" "move_left s = set_col (cur_col s + 1) s"
  by (cases "piece_en_cours (set_col (cur_col s + 1) s)")
    (simp_all add: move_left_def Let_def set_col_def cur_col_def)

lemma move_right_cases:
  obtains (rejected) "\<not> piece_en_cours (set_col (cur_col s - 1) s)" "move_right s = s"
  | (accepted) "piece_en_cours (set_col (cur_col s - 1) s)" "move_right s = set_col (cur_col s - 1) s"
  by (cases "piece_en_cours (set_col (cur_col s - 1) s)")
    (simp_all add: move_right_def Let_def set_col_def cur_col_def)

lemma rot_right_cases:
  obtains (rejected) "\<not> piece_en_cours (s\<lparr>current_piece := Piece_rot_right (current_piece s)\<rparr>)"
      "rot_right s = s"
  | (accepted) "piece_en_cours (s\<lparr>current_piece := Piece_rot_right (current_piece s)\<rparr>)"
      "rot_right s = s\<lparr>current_piece := Piece_rot_right (current_piece s)\<rparr>"
  by (cases "piece_en_cours (s\<lparr>current_piece := Piece_rot_right (current_piece s)\<rparr>)")
    (simp_all add: rot_right_def Let_def)

lemma rot_left_cases:
  obtains (rejected) "\<not> piece_en_cours (s\<lparr>current_piece := Piece_rot_left (current_piece s)\<rparr>)"
      "rot_left s = s"
  | (accepted) "piece_en_cours (s\<lparr>current_piece := Piece_rot_left (current_piece s)\<rparr>)"
      "rot_left s = s\<lparr>current_piece := Piece_rot_left (current_piece s)\<rparr>"
  by (cases "piece_en_cours (s\<lparr>current_piece := Piece_rot_left (current_piece s)\<rparr>)")
    (simp_all add: rot_left_def Let_def)


lemma stop_piece_table:
  assumes "stop_piece s pick = Inr s'" and "pick \<in> set SHAPES"
  shows "table_piece (current_piece s')" "hold_piece s' = hold_piece s" "can_hold s' = Some True"
  using assms
  by (auto elim!: stop_piece_cases dest: add_piece_table(2) add_piece_frame simp: clear_rows_frame)

lemma hold_table:
  assumes "hold s pick = Inr s'" and "pick \<in> set SHAPES"
    and "table_piece (current_piece s)"
    and "\<And>hp. hold_piece s = Some hp \<Longrightarrow> table_piece hp"
  shows "table_piece (current_piece s')"
    and "\<And>hp. hold_piece s' = Some hp \<Longrightarrow> table_piece hp"
    and "can_hold s' \<noteq> None"
proof -
  show "can_hold s' \<noteq> None"
    using hold_result [OF assms(1)] by simp
  show "table_piece (current_piece s')"
  proof (cases "hold_piece s")
    case None
    with assms(1) obtain s1 where "add_piece (s\<lparr>hold_piece := Some (current_piece s)\<rparr>) pick = Inr s1"
      "s' = s1\<lparr>can_hold := Some False\<rparr>"
      by (auto simp: hold_def next_piece_def split: sum.splits)
    with add_piece_table(2) [OF assms(2)] show ?thesis by auto
  next
    case (Some held)
    from assms(1) Some show ?thesis
    proof (cases rule: hold_held_cases)
      case (swap s0)
      from table_piece_shape(1) [OF assms(4) [OF Some]] have "shapes held N \<in> set SHAPES" .
      from add_piece_table(2) [OF this swap(2)] swap(3) show ?thesis by simp
    next
      case spent
      with assms(3) show ?thesis by simp
    qed
  qed
  fix hp
  assume hp: "hold_piece s' = Some hp"
  show "table_piece hp"
  proof (cases "hold_piece s")
    case None
    with assms(1) obtain s1 where "add_piece (s\<lparr>hold_piece := Some (current_piece s)\<rparr>) pick = Inr s1"
      "s' = s1\<lparr>can_hold := Some False\<rparr>"
      by (auto simp: hold_def next_piece_def split: sum.splits)
    with hp assms(3) show ?thesis
      by (auto dest: add_piece_frame(5))
  next
    case (Some held)
    from assms(1) Some show ?thesis
    proof (cases rule: hold_held_cases)
      case (swap s0)
      with hp assms(3) show ?thesis
        by (auto dest: add_piece_frame(5))
    next
      case spent
      with hp assms(4) show ?thesis by simp
    qed
  qed
qed

lemma reachable_table:
  "reachable s \<Longrightarrow>
     table_piece (current_piece s)
   \<and> (\<forall>hp. hold_piece s = Some hp \<longrightarrow> table_piece hp \<and> can_hold s \<noteq> None)"
proof (induction rule: reachable.induct)
  case (r_init pick h w lvl s)
  then show ?case
    by (auto simp: Tetris_init_def split: sum.splits intro: table_piece_init)
next
  case (r_restart s pick s')
  then show ?case
    by (auto simp: Tetris_init_def split: sum.splits intro: table_piece_init)
next
  case (r_move_down s pick moved s')
  from r_move_down.hyps(3) show ?case
  proof (cases rule: move_down_cases)
    case accepted
    with r_move_down.IH show ?thesis by simp
  next
    case rejected
    from stop_piece_table [OF rejected(3) r_move_down.hyps(2)] r_move_down.IH
    show ?thesis by simp
  qed
next
  case (r_move_left s)
  then show ?case by (cases s rule: move_left_cases) simp_all
next
  case (r_move_right s)
  then show ?case by (cases s rule: move_right_cases) simp_all
next
  case (r_rot_right s)
  then show ?case by (cases s rule: rot_right_cases) simp_all
next
  case (r_rot_left s)
  then show ?case by (cases s rule: rot_left_cases) simp_all
next
  case (r_hold s pick s')
  from hold_table [OF r_hold.hyps(3,2)] r_hold.IH show ?case by blast
qed

lemma piece_en_cours_in_bounds: "piece_en_cours s \<Longrightarrow> in_bounds s"
  by (simp add: piece_en_cours_iff in_bounds_def)

lemma spawn_in_bounds:
  assumes "add_piece s sh = Inr s'" and "sh \<in> set SHAPES" and "6 \<le> width s" and "4 \<le> height s"
  shows "in_bounds s'"
proof -
  from assms(1) obtain p where
    p: "Piece_init \<lparr>row = int (height s) - int (length sh), col = int (width s div 2)\<rparr> sh = Inr p"
    and cp: "current_piece s' = p" and w: "width s' = width s"
    by (auto elim!: add_piece_cases)
  from Piece_init_fields [OF p]
  have "row (loc p) = int (height s) - int (length sh)" "col (loc p) = int (width s div 2)"
    "get_width p = max_bit_length sh"
    by (simp_all add: get_width_def consistent_piece_def)
  with SHAPES_facts(2,3) [OF assms(2)] assms(3,4) show ?thesis
    by (simp add: in_bounds_def cur_row_def cur_col_def cp w)
qed


lemma hold_in_bounds:
  assumes "hold s pick = Inr s'" and "pick \<in> set SHAPES" and "6 \<le> width s" and "4 \<le> height s"
    and "in_bounds s" and "\<And>hp. hold_piece s = Some hp \<Longrightarrow> table_piece hp"
  shows "in_bounds s'"
proof (cases "hold_piece s")
  case None
  with assms(1) obtain s1 where a: "add_piece (s\<lparr>hold_piece := Some (current_piece s)\<rparr>) pick = Inr s1"
    and s': "s' = s1\<lparr>can_hold := Some False\<rparr>"
    by (auto simp: hold_def next_piece_def split: sum.splits)
  from spawn_in_bounds [OF a assms(2)] assms(3,4) have "in_bounds s1" by simp
  with s' show ?thesis by (simp add: in_bounds_def cur_row_def cur_col_def)
next
  case (Some held)
  from assms(1) Some show ?thesis
  proof (cases rule: hold_held_cases)
    case (swap s0)
    from table_piece_shape(1) [OF assms(6) [OF Some]] have "shapes held N \<in> set SHAPES" .
    from spawn_in_bounds [OF swap(2) this] assms(3,4) have "in_bounds s0" by simp
    with swap(3) show ?thesis by (simp add: in_bounds_def cur_row_def cur_col_def)
  next
    case spent
    with assms(5) show ?thesis by (simp add: in_bounds_def cur_row_def cur_col_def)
  qed
qed

lemma stop_piece_in_bounds:
  assumes "stop_piece s pick = Inr s'" and "pick \<in> set SHAPES" and "6 \<le> width s" and "4 \<le> height s"
  shows "in_bounds s'"
proof -
  from assms(1) obtain merged s1 where
    a: "add_piece (clear_rows (s\<lparr>board := merged\<rparr>)) pick = Inr s1"
    and s': "s' = s1\<lparr>can_hold := Some True\<rparr>"
    by (rule stop_piece_cases)
  from spawn_in_bounds [OF a assms(2)] assms(3,4) have "in_bounds s1"
    by (simp add: clear_rows_frame)
  with s' show ?thesis by (simp add: in_bounds_def cur_row_def cur_col_def)
qed

lemma reachable_in_bounds:
  "reachable s \<Longrightarrow> 6 \<le> width s \<and> 4 \<le> height s \<longrightarrow> in_bounds s"
proof (induction rule: reachable.induct)
  case (r_init pick h w lvl s)
  show ?case
  proof
    assume "6 \<le> width s \<and> 4 \<le> height s"
    then have d: "6 \<le> width s" "4 \<le> height s" by simp_all
    from r_init(2) obtain p where
      p: "Piece_init \<lparr>row = int h - int (length pick), col = int (w div 2)\<rparr> pick = Inr p"
      and cp: "current_piece s = p" "width s = w" "height s = h"
      by (auto simp: Tetris_init_def split: sum.splits)
    from Piece_init_fields [OF p]
    have "row (loc p) = int h - int (length pick)" "col (loc p) = int (w div 2)"
      "get_width p = max_bit_length pick"
      by (simp_all add: get_width_def consistent_piece_def)
    with SHAPES_facts(2,3) [OF r_init(1)] d show "in_bounds s"
      unfolding in_bounds_def cur_row_def cur_col_def cp by simp
  qed
next
  case (r_restart s pick s')
  from r_restart(3) obtain p where
    p: "Piece_init \<lparr>row = int 20 - int (length pick), col = int (10 div 2)\<rparr> pick = Inr p"
    and cp: "current_piece s' = p" "width s' = 10" "height s' = 20"
    by (auto simp: Tetris_init_def split: sum.splits)
  from Piece_init_fields [OF p]
  have "row (loc p) = int 20 - int (length pick)" "col (loc p) = int (10 div 2)"
    "get_width p = max_bit_length pick"
    by (simp_all add: get_width_def consistent_piece_def)
  with SHAPES_facts(2,3) [OF r_restart(2)] show ?case
    by (simp add: in_bounds_def cur_row_def cur_col_def cp)
next
  case (r_move_down s pick moved s')
  from r_move_down.hyps(3) show ?case
  proof (cases rule: move_down_cases)
    case accepted
    then show ?thesis by (simp add: piece_en_cours_in_bounds)
  next
    case rejected
    from stop_piece_in_bounds [OF rejected(3) r_move_down.hyps(2)] stop_piece_frame(1,2) [OF rejected(3)]
    show ?thesis by simp
  qed
next
  case (r_move_left s)
  then show ?case by (cases s rule: move_left_cases) (simp_all add: piece_en_cours_in_bounds)
next
  case (r_move_right s)
  then show ?case by (cases s rule: move_right_cases) (simp_all add: piece_en_cours_in_bounds)
next
  case (r_rot_right s)
  then show ?case by (cases s rule: rot_right_cases) (simp_all add: piece_en_cours_in_bounds)
next
  case (r_rot_left s)
  then show ?case by (cases s rule: rot_left_cases) (simp_all add: piece_en_cours_in_bounds)
next
  case (r_hold s pick s')
  have "\<And>hp. hold_piece s = Some hp \<Longrightarrow> table_piece hp"
    using reachable_table [OF r_hold.hyps(1)] by blast
  from hold_in_bounds [OF r_hold.hyps(3,2) _ _ _ this] r_hold.IH hold_frame(2,3) [OF r_hold.hyps(3)]
  show ?case by simp
qed

subsection \<open>The merge loop and the drop loop\<close>

lemma row_at_update:
  "row_at (b[k := v]) i = (if i = k \<and> k < length b then v else row_at b i)"
  by (auto simp: row_at_def)

lemma row_at_snoc:
  "row_at (b @ [v]) i = (if i = length b then v else row_at b i)"
  by (auto simp: row_at_def nth_append)

lemma merge_loop_in_place:
  assumes "0 \<le> r" and "r \<le> int (length b)"
  shows "\<exists>m. merge_loop b r ls = Inr m
           \<and> length m = max (length b) (nat r + length ls)
           \<and> (\<forall>i. row_at m i =
                 row_at b i OR (if nat r \<le> i \<and> i < nat r + length ls then ls ! (i - nat r) else 0))"
  using assms
proof (induction ls arbitrary: b r)
  case Nil
  then show ?case by simp
next
  case (Cons layer ls)
  let ?b' = "if r < int (length b) then b[nat r := (b ! nat r) OR layer] else b @ [layer]"
  have step: "merge_loop b r (layer # ls) = merge_loop ?b' (r + 1) ls"
    using Cons.prems by simp
  have r1: "0 \<le> r + 1" "r + 1 \<le> int (length ?b')" "nat (r + 1) = Suc (nat r)"
    using Cons.prems by auto
  from Cons.IH [OF r1(1,2)] obtain m where
    m: "merge_loop ?b' (r + 1) ls = Inr m"
    and len: "length m = max (length ?b') (nat (r + 1) + length ls)"
    and rows: "\<And>i. row_at m i =
        row_at ?b' i OR (if nat (r + 1) \<le> i \<and> i < nat (r + 1) + length ls then ls ! (i - nat (r + 1)) else 0)"
    by blast
  have b': "row_at ?b' i = row_at b i OR (if i = nat r then layer else 0)" for i
  proof (cases "r < int (length b)")
    case True
    then have "nat r < length b" using Cons.prems by simp
    with True show ?thesis
      by (simp add: row_at_update) (simp add: row_at_def)
  next
    case False
    with Cons.prems have "nat r = length b" by simp
    with False show ?thesis
      by (simp add: row_at_snoc) (simp add: row_at_def)
  qed
  have "length m = max (length b) (nat r + length (layer # ls))"
    using len r1(3) Cons.prems by auto
  moreover have "row_at m i = row_at b i OR
      (if nat r \<le> i \<and> i < nat r + length (layer # ls) then (layer # ls) ! (i - nat r) else 0)" for i
  proof -
    consider "i < nat r" | "i = nat r" | "nat r < i"
      by arith
    then show ?thesis
    proof cases
      case 1
      then show ?thesis using rows [of i] b' [of i] r1(3) by simp
    next
      case 2
      then show ?thesis using rows [of i] b' [of i] r1(3) by simp
    next
      case 3
      then have "(layer # ls) ! (i - nat r) = ls ! (i - Suc (nat r))"
        by (simp add: nth_Cons')
      with 3 show ?thesis using rows [of i] b' [of i] r1(3) by auto
    qed
  qed
  ultimately show ?case
    using m step by auto
qed



lemma get_width_loc [simp]: "get_width (p\<lparr>loc := l\<rparr>) = get_width p"
  by (simp add: get_width_def)

lemma shift_layers_row [simp]:
  "shift_layers (p\<lparr>loc := (loc p)\<lparr>row := r\<rparr>\<rparr>) = shift_layers p"
  by (simp add: shift_layers_def)

lemma set_row_piece [simp]:
  "cur_row (set_row r s) = r" "cur_col (set_row r s) = cur_col s"
  "get_width (current_piece (set_row r s)) = get_width (current_piece s)"
  "shift_layers (current_piece (set_row r s)) = shift_layers (current_piece s)"
  "shapes (current_piece (set_row r s)) = shapes (current_piece s)"
  "rot (current_piece (set_row r s)) = rot (current_piece s)"
  by (simp_all add: set_row_def cur_row_def cur_col_def get_width_def shift_layers_def)

lemma rejected_on_floor_or_stack:
  assumes "in_bounds s" and "\<not> piece_en_cours (set_row (cur_row s - 1) s)"
  shows "cur_row s \<le> int (length (board s))"
proof (cases "0 \<le> cur_row s - 1")
  case False
  with assms(1) show ?thesis by (simp add: in_bounds_def)
next
  case True
  with assms obtain i where "nat (cur_row s - 1) + i < length (board s)"
    unfolding piece_en_cours_iff in_bounds_def by auto
  with True show ?thesis by simp
qed



subsection \<open>Placements the box test rejects\<close>

lemma placement_ok_game_over [simp]: "placement_ok (s\<lparr>game_over := b\<rparr>) = placement_ok s"
  by (simp add: placement_ok_def locked_cell_def)

lemma consistent_width:
  "consistent_piece p \<Longrightarrow> get_width p = max_bit_length (shapes p (rot p))"
  by (simp add: consistent_piece_def get_width_def)

lemma consistent_piece_update [simp]:
  "consistent_piece (p\<lparr>loc := l\<rparr>) = consistent_piece p"
  "consistent_piece (p\<lparr>rot := d\<rparr>) = consistent_piece p"
  "consistent_piece (Piece_rot_right p) = consistent_piece p"
  "consistent_piece (Piece_rot_left p) = consistent_piece p"
  by (simp_all add: consistent_piece_def Piece_rot_right_def Piece_rot_left_def)


subsection \<open>More states of the example sessions\<close>

lemma ess_in_SHAPES: "[6, 3] \<in> set SHAPES"
  by (simp add: SHAPES_def)


lemma ex_b3_values:
  "shapes (current_piece ex_b2) N = [2, 7]"
  by code_simp

lemma reachable_ex_b0: "reachable ex_b0"
  using line_in_SHAPES ex_b0 by (rule r_init)






lemma ex_d1: "descend 16 ex_b0 [3, 3] = Some ex_d1"
  unfolding ex_d1_def by (rule option.collapse [symmetric]) code_simp

lemma ex_d1_on_floor: "\<not> piece_en_cours (set_row (cur_row ex_d1 - 1) ex_d1)"
  by code_simp

lemma ex_d2: "stop_piece ex_d1 [3, 3] = Inr ex_d2"
  unfolding ex_d2_def by (rule sum.collapse(2) [symmetric]) code_simp

lemma ex_d1_move_down: "move_down ex_d1 [3, 3] = Inr (False, ex_d2)"
  by (simp add: move_down_rejected [OF ex_d1_on_floor] ex_d2)

lemma reachable_ex_d1: "reachable ex_d1"
  using reachable_ex_b0 square_in_SHAPES ex_d1 by (rule descend_reachable)

lemma ex_d3: "descend 14 ex_d2 [3, 3] = Some ex_d3"
  unfolding ex_d3_def by (rule option.collapse [symmetric]) code_simp

lemma reachable_ex_d3: "reachable ex_d3"
proof -
  from reachable_ex_d1 square_in_SHAPES ex_d1_move_down have "reachable ex_d2"
    by (rule r_move_down)
  then show ?thesis
    using square_in_SHAPES ex_d3 by (rule descend_reachable)
qed


lemma ex_d3_values:
  "\<not> piece_en_cours (set_row (cur_row ex_d3 - 1) ex_d3)"
  "cur_row ex_d3 = 4" "board ex_d3 = [16, 16, 16, 16]" "width ex_d3 = 10" "height ex_d3 = 20"
  "get_bits (current_piece ex_d3) = Inr [24, 24]"
  "merge_loop [16, 16, 16, 16] 4 [24, 24] = Inr [16, 16, 16, 16, 24, 24]"
  by code_simp+

lemma ex_full_values:
  "\<not> game_over ex_full" "width ex_full = 4" "height ex_full = 4" "board ex_full = [3, 3, 3, 3]"
  "game_over ex_over" "cur_row ex_over = 2" "cur_col ex_over = 2"
  by code_simp+

lemma ex_over: "add_piece ex_full [3, 3] = Inr ex_over"
  unfolding ex_over_def by (rule sum.collapse(2) [symmetric]) code_simp

lemma ex_c0: "Tetris_init None 20 2 0 [6, 3] = Inr ex_c0"
  unfolding ex_c0_def by (rule sum.collapse(2) [symmetric]) code_simp

lemma ex_c1: "Tetris_init None 1 10 0 [3, 3] = Inr ex_c1"
  unfolding ex_c1_def by (rule sum.collapse(2) [symmetric]) code_simp

lemma ex_c_values:
  "\<not> game_over ex_c0" "\<not> piece_en_cours (set_row (cur_row ex_c0 - 1) ex_c0)"
  "cur_row ex_c0 = 18" "length (board ex_c0) = 0"
  "map_sum id fst (move_down ex_c0 [3, 3]) = Inl ValueError"
  "\<not> game_over ex_c1" "\<not> piece_en_cours (set_row (cur_row ex_c1 - 1) ex_c1)"
  "cur_row ex_c1 = - 1" "length (board ex_c1) = 0"
  "map_sum id fst (move_down ex_c1 [3, 3]) = Inl IndexError"
  by code_simp+


section \<open>The claims\<close>

subsection \<open>C1: the height of a piece\<close>

text \<open>
  C1 says that \<^verbatim>\<open>get_height()\<close> returns the number of rows of the variant of the
  current rotation state, precomputed at construction. The constructor does precompute
  that table (\<^verbatim>\<open>heights\<close>), but \<^verbatim>\<open>get_height\<close> reads \<^verbatim>\<open>widths\<close>. For the line
  piece in its base state, four rows of one cell each, the method returns 1 while the
  variant has 4 rows and the table holds 4.
\<close>

theorem get_height_line_piece:
  "map_sum id (\<lambda>p. (get_height p, length (shapes p (rot p)), heights p (rot p)))
     (Piece_init \<lparr>row = 16, col = 5\<rparr> [1, 1, 1, 1]) = Inr (1, 4, 4)"
  by code_simp

subsection \<open>C8: the rotation states form a cycle\<close>

text \<open>
  C8: for every piece, four calls of \<^verbatim>\<open>rot_right\<close> give back the piece, with its
  rotation state and the rows \<^verbatim>\<open>get_bits\<close> produces; \<^verbatim>\<open>rot_left\<close> undoes
  \<^verbatim>\<open>rot_right\<close> and \<^verbatim>\<open>rot_right\<close> undoes \<^verbatim>\<open>rot_left\<close>; and the four states met on
  the way are all the rotation states there are.
\<close>

theorem rot_right_cycle:
  "Piece_rot_right (Piece_rot_right (Piece_rot_right (Piece_rot_right p))) = p
   \<and> get_bits (Piece_rot_right (Piece_rot_right (Piece_rot_right (Piece_rot_right p)))) = get_bits p
   \<and> Piece_rot_left (Piece_rot_right p) = p
   \<and> Piece_rot_right (Piece_rot_left p) = p
   \<and> {rot p, rot (Piece_rot_right p), rot (Piece_rot_right (Piece_rot_right p)),
       rot (Piece_rot_right (Piece_rot_right (Piece_rot_right p)))} = UNIV"
proof -
  have univ: "(UNIV :: Dir set) = {N, E, S, W}"
    using Dir.exhaust by auto
  have orbit: "{rot p, rot (Piece_rot_right p), rot (Piece_rot_right (Piece_rot_right p)),
       rot (Piece_rot_right (Piece_rot_right (Piece_rot_right p)))} = UNIV"
    unfolding univ by (cases "rot p") (auto simp: rot_Piece_rot_right)
  show ?thesis
    using orbit by (simp add: Piece_rot_right4)
qed

subsection \<open>C3: a lock clears the rows it completes\<close>

text \<open>
  C3: whenever \<^verbatim>\<open>_stop_piece\<close> returns, the piece's rows have been merged into the
  board; if \<open>k\<close> of the merged rows equal the full-row mask, the cleared-line count has
  grown by exactly \<open>k\<close>, and the new board is the merged board without those \<open>k\<close> rows:
  the other rows, all of them, in the order they had, stored one after the other.
\<close>

theorem lock_clears_full_rows:
  assumes "stop_piece s pick = Inr s'"
  shows "\<exists>shape merged.
           get_bits (current_piece s) = Inr shape
         \<and> merge_loop (board s) (row (loc (current_piece s))) shape = Inr merged
         \<and> cleared_lines s' = cleared_lines s + count_list merged (FULL_ROW s)
         \<and> board s' = filter (\<lambda>layer. layer \<noteq> FULL_ROW s) merged
         \<and> FULL_ROW s \<notin> set (board s')
         \<and> length (board s') + count_list merged (FULL_ROW s) = length merged
         \<and> subseq (board s') merged"
proof -
  from assms obtain shape merged s1 where
    gb: "get_bits (current_piece s) = Inr shape" and
    ml: "merge_loop (board s) (row (loc (current_piece s))) shape = Inr merged" and
    ap: "add_piece (clear_rows (s\<lparr>board := merged\<rparr>)) pick = Inr s1" and
    s': "s' = s1\<lparr>can_hold := Some True\<rparr>"
    by (rule stop_piece_cases)
  let ?t = "s\<lparr>board := merged\<rparr>"
  have b: "board s' = filter (\<lambda>layer. layer \<noteq> FULL_ROW s) merged"
    using add_piece_frame(1) [OF ap] s' by (simp add: clear_rows_board)
  have c: "cleared_lines s' = cleared_lines s + count_list merged (FULL_ROW s)"
    using add_piece_frame(7) [OF ap] s' clear_rows_cleared [of ?t] by simp
  have l: "length (board s') + count_list merged (FULL_ROW s) = length merged"
    unfolding b by (rule length_filter_neq_count)
  have n: "FULL_ROW s \<notin> set (board s')"
    unfolding b by simp
  have q: "subseq (board s') merged"
    unfolding b by (rule subseq_filter_left)
  from gb ml b c l n q show ?thesis by blast
qed

text \<open>On the small board the second square completes rows 0 and 1: two rows are counted
  and the board is empty afterwards.\<close>

theorem lock_clears_full_rows_witness:
  "stop_piece ex_a3 [3, 3] = Inr ex_a4
   \<and> merge_loop (board ex_a3) (row (loc (current_piece ex_a3))) [12, 12] = Inr [15, 15]
   \<and> cleared_lines ex_a4 = cleared_lines ex_a3 + 2
   \<and> board ex_a4 = []"
proof -
  from lock_clears_full_rows [OF ex_a4] obtain shape merged where
    gb: "get_bits (current_piece ex_a3) = Inr shape" and
    ml: "merge_loop (board ex_a3) (row (loc (current_piece ex_a3))) shape = Inr merged" and
    c: "cleared_lines ex_a4 = cleared_lines ex_a3 + count_list merged (FULL_ROW ex_a3)" and
    b: "board ex_a4 = filter (\<lambda>layer. layer \<noteq> FULL_ROW ex_a3) merged"
    by blast
  from gb have shape: "shape = [12, 12]"
    by (simp add: ex_a3_values(1))
  from ml have "Inr merged = (Inr [15, 15] :: error + nat list)"
    unfolding shape ex_a3_values(2) by (rule sym)
  then have merged: "merged = [15, 15]"
    by simp
  from c b have "cleared_lines ex_a4 = cleared_lines ex_a3 + 2" "board ex_a4 = []"
    unfolding merged ex_a3_values(3) by simp_all
  with ex_a4 ex_a3_values(2) show ?thesis
    by simp
qed

subsection \<open>C4: the full-row mask and the stored rows\<close>

text \<open>
  C4: in every reachable state the full-row mask is \<open>2 ^ width - 1\<close> and no stored row
  equals it; and a lock keeps a merged row exactly when the row differs from the mask,
  so a row that reaches the mask is gone when the operation that produced it returns.
\<close>

theorem no_full_row_stored:
  assumes "reachable s"
  shows "FULL_ROW s = 2 ^ width s - 1
       \<and> 2 ^ width s - 1 \<notin> set (board s)
       \<and> (\<forall>pick s'. stop_piece s pick = Inr s' \<longrightarrow>
            (\<exists>shape merged.
                get_bits (current_piece s) = Inr shape
              \<and> merge_loop (board s) (row (loc (current_piece s))) shape = Inr merged
              \<and> board s' = filter (\<lambda>layer. layer \<noteq> 2 ^ width s - 1) merged))"
proof -
  from assms have f: "FULL_ROW s = 2 ^ width s - 1" and n: "FULL_ROW s \<notin> set (board s)"
    using reachable_full_row by blast+
  have "\<exists>shape merged.
          get_bits (current_piece s) = Inr shape
        \<and> merge_loop (board s) (row (loc (current_piece s))) shape = Inr merged
        \<and> board s' = filter (\<lambda>layer. layer \<noteq> 2 ^ width s - 1) merged"
    if "stop_piece s pick = Inr s'" for pick s'
  proof -
    from that obtain shape merged s1 where
      gb: "get_bits (current_piece s) = Inr shape" and
      ml: "merge_loop (board s) (row (loc (current_piece s))) shape = Inr merged" and
      ap: "add_piece (clear_rows (s\<lparr>board := merged\<rparr>)) pick = Inr s1" and
      s': "s' = s1\<lparr>can_hold := Some True\<rparr>"
      by (rule stop_piece_cases)
    have "board s' = filter (\<lambda>layer. layer \<noteq> FULL_ROW s) merged"
      using add_piece_frame(1) [OF ap] s' by (simp add: clear_rows_board)
    with gb ml f show ?thesis by simp
  qed
  with f n show ?thesis by simp
qed

theorem no_full_row_stored_witness:
  "reachable ex_a3 \<and> stop_piece ex_a3 [3, 3] = Inr ex_a4
   \<and> FULL_ROW ex_a3 = 15 \<and> 15 \<notin> set (board ex_a3)
   \<and> board ex_a4 = filter (\<lambda>layer. layer \<noteq> 15) [15, 15]"
proof -
  from no_full_row_stored [OF reachable_ex_a3]
  have f: "FULL_ROW ex_a3 = 2 ^ width ex_a3 - 1"
    and n: "2 ^ width ex_a3 - 1 \<notin> set (board ex_a3)"
    and l: "\<exists>shape merged.
              get_bits (current_piece ex_a3) = Inr shape
            \<and> merge_loop (board ex_a3) (row (loc (current_piece ex_a3))) shape = Inr merged
            \<and> board ex_a4 = filter (\<lambda>layer. layer \<noteq> 2 ^ width ex_a3 - 1) merged"
    using ex_a4 by blast+
  from l obtain shape merged where
    gb: "get_bits (current_piece ex_a3) = Inr shape" and
    ml: "merge_loop (board ex_a3) (row (loc (current_piece ex_a3))) shape = Inr merged" and
    b: "board ex_a4 = filter (\<lambda>layer. layer \<noteq> 2 ^ width ex_a3 - 1) merged"
    by blast
  from gb have shape: "shape = [12, 12]"
    by (simp add: ex_a3_values(1))
  from ml have "Inr merged = (Inr [15, 15] :: error + nat list)"
    unfolding shape ex_a3_values(2) by (rule sym)
  then have merged: "merged = [15, 15]"
    by simp
  from b have b': "board ex_a4 = filter (\<lambda>layer. layer \<noteq> 15) [15, 15]"
    unfolding merged ex_a3_values(4) by simp
  from f n have "FULL_ROW ex_a3 = 15" "15 \<notin> set (board ex_a3)"
    unfolding ex_a3_values(4) by simp_all
  with b' reachable_ex_a3 ex_a4 show ?thesis
    by blast
qed

subsection \<open>C6: one hold per lock\<close>

text \<open>
  C6 says that in every state that holds a shape the first of two consecutive calls of
  \<^verbatim>\<open>hold\<close> performs the swap. As stated this fails where hold has been used since
  the last lock: after the swap of the example session the T piece is held and hold is
  not available, and a call of \<^verbatim>\<open>hold\<close> returns the same state, with the T piece
  still held and the line still current.
\<close>

theorem hold_spent_swaps_nothing:
  "reachable ex_b3 \<and> hold_piece ex_b3 = Some (current_piece ex_b2)
   \<and> can_hold ex_b3 = Some False
   \<and> hold ex_b3 [3, 3] = Inr ex_b3
   \<and> shapes (current_piece ex_b2) N = [2, 7]
   \<and> shapes (current_piece ex_b3) N = [1, 1, 1, 1]
   \<and> hold_piece ex_b3 \<noteq> Some (current_piece ex_b3)"
proof -
  have r: "reachable ex_b3"
    using reachable_ex_b2 square_in_SHAPES ex_b3 by (rule r_hold)
  from ex_b3 ex_b2_held have h: "hold_piece ex_b3 = Some (current_piece ex_b2)"
  proof (cases rule: hold_held_cases)
    case (swap s0)
    from add_piece_frame(5) [OF swap(2)] have "hold_piece s0 = Some (current_piece ex_b2)"
      by simp
    then show ?thesis unfolding swap(3) by simp
  next
    case spent
    with ex_b_values(1) show ?thesis by simp
  qed
  from hold_result [OF ex_b3] have sp: "hold ex_b3 [3, 3] = Inr ex_b3"
    by (simp add: hold_spent)
  have "current_piece ex_b2 \<noteq> current_piece ex_b3"
  proof
    assume "current_piece ex_b2 = current_piece ex_b3"
    then have "shapes (current_piece ex_b2) N = shapes (current_piece ex_b3) N" by simp
    then show False unfolding ex_b3_values ex_b_values(4) by simp
  qed
  then have ne: "hold_piece ex_b3 \<noteq> Some (current_piece ex_b3)"
    unfolding h by simp
  show ?thesis
    by (intro conjI r h ex_b_values(2,4) sp ex_b3_values ne)
qed

text \<open>
  C6 as amended: in a state that holds a shape and in which hold is available, the
  first call of \<^verbatim>\<open>hold\<close> swaps: the piece that was current is held, the current piece
  is the one the spawn rule builds from the held shape, and the board is untouched; when
  hold is not available the first call changes nothing. In both cases a call of
  \<^verbatim>\<open>hold\<close> that returns leaves a state on which the next call of \<^verbatim>\<open>hold\<close>
  changes nothing at all. Every lock that returns leaves hold available.
\<close>

theorem hold_once_per_lock:
  "(hold_piece s = Some held \<and> hold s pick = Inr s1 \<longrightarrow>
        hold s1 pick' = Inr s1
      \<and> (can_hold s = Some True \<longrightarrow>
            hold_piece s1 = Some (current_piece s)
          \<and> map_sum id current_piece (add_piece s (shapes held N)) = Inr (current_piece s1)
          \<and> board s1 = board s)
      \<and> (can_hold s = Some False \<longrightarrow> s1 = s))
   \<and> (stop_piece s pick = Inr s2 \<longrightarrow> can_hold s2 = Some True)"
proof (intro conjI impI)
  assume "stop_piece s pick = Inr s2"
  then show "can_hold s2 = Some True"
    by (auto elim!: stop_piece_cases)
next
  assume a: "hold_piece s = Some held \<and> hold s pick = Inr s1"
  then have r: "hold_piece s1 \<noteq> None \<and> can_hold s1 = Some False"
    using hold_result by blast
  then show "hold s1 pick' = Inr s1"
    by (simp add: hold_spent)
next
  assume a: "hold_piece s = Some held \<and> hold s pick = Inr s1"
  assume "can_hold s = Some False"
  with a show "s1 = s"
    by (auto elim!: hold_held_cases)
next
  assume a: "hold_piece s = Some held \<and> hold s pick = Inr s1" and c: "can_hold s = Some True"
  from a c obtain s0 where
    ap: "add_piece (s\<lparr>hold_piece := Some (current_piece s)\<rparr>) (shapes held N) = Inr s0" and
    s1: "s1 = s0\<lparr>can_hold := Some False\<rparr>"
    by (auto elim!: hold_held_cases)
  from ap s1 show "hold_piece s1 = Some (current_piece s)"
    by (auto dest: add_piece_frame)
  from ap s1 show "board s1 = board s"
    by (auto dest: add_piece_frame)
  from ap s1 show "map_sum id current_piece (add_piece s (shapes held N)) = Inr (current_piece s1)"
    by (auto simp: add_piece_def Let_def piece_en_cours_def split: sum.splits if_splits)
qed

text \<open>On the default board: the T piece is swapped for the held line, and a second call
  changes nothing; the lock of the small board leaves hold available.\<close>

theorem hold_once_per_lock_witness:
  "hold_piece ex_b2 = Some (the (hold_piece ex_b2)) \<and> hold ex_b2 [3, 3] = Inr ex_b3
   \<and> can_hold ex_b2 = Some True
   \<and> hold ex_b3 [2, 7] = Inr ex_b3
   \<and> hold_piece ex_b3 = Some (current_piece ex_b2)
   \<and> board ex_b3 = board ex_b2
   \<and> shapes (current_piece ex_b3) N = [1, 1, 1, 1]
   \<and> stop_piece ex_a3 [3, 3] = Inr ex_a4 \<and> can_hold ex_a4 = Some True"
proof -
  have h: "hold_piece ex_b2 = Some (the (hold_piece ex_b2)) \<and> hold ex_b2 [3, 3] = Inr ex_b3"
    using ex_b2_held ex_b3 by simp
  from hold_once_per_lock [of ex_b2 "the (hold_piece ex_b2)" "[3, 3]" ex_b3 "[2, 7]"] h
  have 1: "hold ex_b3 [2, 7] = Inr ex_b3"
    and 2: "can_hold ex_b2 = Some True \<longrightarrow>
            hold_piece ex_b3 = Some (current_piece ex_b2) \<and> board ex_b3 = board ex_b2"
    by blast+
  from hold_once_per_lock [of ex_a3 undefined "[3, 3]" undefined undefined ex_a4] ex_a4
  have 3: "can_hold ex_a4 = Some True"
    by blast
  from h 1 2 3 ex_b_values(1,4) ex_a4 show ?thesis
    by blast
qed

subsection \<open>C7: the rotation transform\<close>

text \<open>
  C7 says that for every non-empty sequence of height \<open>h\<close> and width \<open>w\<close> the result
  has height \<open>w\<close> and width \<open>h\<close>. As stated this fails: a row of zeros on top makes the
  result narrower than \<open>h\<close>, and a sequence of zeros only has width 0 while its result
  has one row.
\<close>

theorem rotation_counterexample:
  "rotation [1, 0] = Inr [1] \<and> max_bit_length [1] \<noteq> length [1, 0 :: nat]
   \<and> rotation [0] = Inr [0] \<and> length [0 :: nat] \<noteq> max_bit_length [0]"
  by (simp add: rotation_def max_bit_length_def zip_star_def format_bin_def
      bin_str.simps int_base2_def bit_char_def)

text \<open>
  C7 as amended: for every sequence with a row that is not zero, of height \<open>h\<close> and
  width \<open>w\<close>, the transform returns a sequence of height \<open>w\<close> whose row \<open>k\<close> has, at
  bit \<open>i\<close>, bit \<open>w - 1 - k\<close> of row \<open>i\<close> of the argument: the cell on row \<open>i\<close> and
  column \<open>c\<close> goes to row \<open>w - 1 - c\<close> and column \<open>i\<close>, a quarter turn, the same for
  every shape. The width of the result is at most \<open>h\<close>, and it is \<open>h\<close> exactly when
  the last row of the argument is not zero.
\<close>

theorem rotation_quarter_turn:
  assumes "\<exists>layer \<in> set shape. layer \<noteq> 0"
  shows "\<exists>r. rotation shape = Inr r
           \<and> length r = max_bit_length shape
           \<and> (\<forall>k < max_bit_length shape. \<forall>i < length shape.
                 bit (r ! k) i \<longleftrightarrow> bit (shape ! i) (max_bit_length shape - 1 - k))
           \<and> max_bit_length r \<le> length shape
           \<and> (max_bit_length r = length shape \<longleftrightarrow> last shape \<noteq> 0)"
proof -
  let ?w = "max_bit_length shape"
  let ?h = "length shape"
  let ?r = "map (\<lambda>k. int_base2 (map (\<lambda>r. r ! k) (rev (map (format_bin ?w) shape)))) [0..<?w]"
  from assms obtain layer where layer: "layer \<in> set shape" "layer \<noteq> 0"
    by blast
  then have ne: "shape \<noteq> []" by auto
  have "0 < bit_length layer" using layer(2) by (rule bit_length_pos)
  with bit_length_le_max [OF layer(1)] have w: "0 < ?w" by simp
  have h: "0 < ?h" using ne by simp
  have rot: "rotation shape = Inr ?r"
    using ne w by (rule rotation_rows)
  have len: "length ?r = ?w" by simp
  have bits: "bit (?r ! k) i \<longleftrightarrow> bit (shape ! i) (?w - 1 - k)" if "k < ?w" "i < ?h" for k i
    using that by (simp add: bit_rotation_row)
  have rne: "?r \<noteq> []" using w by simp
  have bound: "bit_length x \<le> ?h" if "x \<in> set ?r" for x
  proof -
    from that obtain k where "x = int_base2 (map (\<lambda>r. r ! k) (rev (map (format_bin ?w) shape)))"
      by auto
    then have "x < 2 ^ ?h"
      using int_base2_less [of "map (\<lambda>r. r ! k) (rev (map (format_bin ?w) shape))"] by simp
    then show ?thesis by (simp add: bit_length_le_iff)
  qed
  then have le: "max_bit_length ?r \<le> ?h"
    using rne by (intro max_bit_length_le) auto
  have top: "last shape = shape ! (?h - 1)"
    using ne by (simp add: last_conv_nth)
  have full: "max_bit_length ?r = ?h \<longleftrightarrow> last shape \<noteq> 0"
  proof
    assume eq: "max_bit_length ?r = ?h"
    from max_bit_length_in [OF rne] obtain x where x: "x \<in> set ?r" "bit_length x = ?h"
      using eq by auto
    from x(1) obtain k where k: "k < ?w" "x = ?r ! k"
      by (auto simp: in_set_conv_nth)
    have "x \<noteq> 0"
    proof
      assume "x = 0"
      then have "bit_length x = 0" by simp
      with x(2) h show False by simp
    qed
    from bit_top [OF this] x(2) have "bit (?r ! k) (?h - 1)"
      using k(2) by simp
    with bits [OF k(1), of "?h - 1"] h have "bit (shape ! (?h - 1)) (?w - 1 - k)"
      by simp
    then show "last shape \<noteq> 0"
      unfolding top by (auto simp: bit_eq_iff)
  next
    assume nz: "last shape \<noteq> 0"
    let ?b = "bit_length (last shape) - 1"
    have b: "bit (last shape) ?b"
      using nz by (rule bit_top)
    have "last shape \<in> set shape" using ne by simp
    from bit_length_le_max [OF this] bit_length_pos [OF nz] have bw: "?b < ?w"
      by arith
    let ?k = "?w - 1 - ?b"
    have k: "?k < ?w" using w by arith
    have "?w - 1 - ?k = ?b" using bw by arith
    with bits [OF k, of "?h - 1"] h b have "bit (?r ! ?k) (?h - 1)"
      unfolding top by simp
    then have "?h - 1 < bit_length (?r ! ?k)"
      by (rule bit_imp_less_bit_length)
    moreover have "?r ! ?k \<in> set ?r"
      using k by (intro nth_mem) simp
    ultimately have "?h \<le> max_bit_length ?r"
      using bit_length_le_max [of "?r ! ?k" ?r] h by arith
    with le show "max_bit_length ?r = ?h" by simp
  qed
  from rot len bits le full show ?thesis
    by (intro exI [of _ ?r]) blast
qed

text \<open>The S shape: two rows of width 3 become three rows of width 2.\<close>

theorem rotation_quarter_turn_witness:
  "(\<exists>layer \<in> set [6, 3 :: nat]. layer \<noteq> 0) \<and> rotation [6, 3] = Inr [1, 3, 2]
   \<and> length [1, 3, 2 :: nat] = max_bit_length [6, 3]
   \<and> max_bit_length [1, 3, 2] = length [6, 3 :: nat]"
proof -
  have h: "\<exists>layer \<in> set [6, 3 :: nat]. layer \<noteq> 0" by simp
  have r: "rotation [6, 3] = Inr [1, 3, 2]" by code_simp
  from rotation_quarter_turn [OF h] r
  have "length [1, 3, 2 :: nat] = max_bit_length [6, 3]"
    and "max_bit_length [1, 3, 2] = length [6, 3 :: nat] \<longleftrightarrow> last [6, 3 :: nat] \<noteq> 0"
    by auto
  with h r show ?thesis by simp
qed

subsection \<open>C2: moves and rotations that do not fit\<close>




subsection \<open>C5: the spawn\<close>

text \<open>
  C5: a spawn of a shape of the table (the only shapes \<^verbatim>\<open>_add_piece\<close> is called
  with) returns; the new current piece is in rotation state \<open>N\<close>, built from that
  shape, anchored at column \<open>width div 2\<close> and at row \<open>height\<close> minus the number of rows
  of the shape; the game-over flag is up afterwards exactly when it was up before or a
  cell of the new piece is outside the board or on a locked cell, so a spawn in a
  Playing state sets it iff the placement is invalid; and nothing else changes: the
  piece stays the current piece also when it is invalid. (The constructor assigns the
  flag \<^verbatim>\<open>False\<close> after its own spawn; that is the constructor, not the spawn.)
\<close>

theorem spawn_places_and_detects:
  assumes "shape \<in> set SHAPES"
  shows "\<exists>s'. add_piece s shape = Inr s'
           \<and> next_piece s shape = Inr s'
           \<and> rot (current_piece s') = N
           \<and> shapes (current_piece s') N = shape
           \<and> col (loc (current_piece s')) = int (width s div 2)
           \<and> row (loc (current_piece s')) = int (height s) - int (length (shapes (current_piece s') N))
           \<and> (game_over s' \<longleftrightarrow> game_over s \<or> \<not> placement_ok s')
           \<and> s'\<lparr>game_over := game_over s\<rparr> = s\<lparr>current_piece := current_piece s'\<rparr>"
proof -
  from add_piece_table(1) [OF assms] obtain s' where a: "add_piece s shape = Inr s'"
    by blast
  then obtain p where
    p: "Piece_init \<lparr>row = int (height s) - int (length shape), col = int (width s div 2)\<rparr> shape = Inr p"
    and s': "s' = s\<lparr>current_piece := p, game_over := game_over s \<or> \<not> piece_en_cours (s\<lparr>current_piece := p\<rparr>)\<rparr>"
    by (rule add_piece_cases)
  note f = Piece_init_fields [OF p]
  let ?t = "s\<lparr>current_piece := p\<rparr>"
  have w: "get_width (current_piece ?t) = max_bit_length (shapes (current_piece ?t) (rot (current_piece ?t)))"
    using f(4) by (simp add: consistent_width)
  have fb: "fills_box (shapes (current_piece ?t) (rot (current_piece ?t)))"
    using f(2,3) SHAPES_facts(4) [OF assms] by simp
  have "piece_en_cours ?t \<longleftrightarrow> placement_ok ?t"
    using piece_en_cours_placement_ok [OF _ w] placement_ok_piece_en_cours [OF _ w fb] by blast
  moreover have "placement_ok s' = placement_ok ?t"
    unfolding s' by simp
  ultimately have g: "game_over s' \<longleftrightarrow> game_over s \<or> \<not> placement_ok s'"
    by (simp add: s')
  have "s'\<lparr>game_over := game_over s\<rparr> = s\<lparr>current_piece := current_piece s'\<rparr>"
    by (simp add: s')
  with a f g show ?thesis
    by (simp add: next_piece_def s')
qed

text \<open>On the small board with the spawn columns filled to the top, the spawn of a
  square raises the flag and leaves the square where it spawned.\<close>

theorem spawn_places_and_detects_witness:
  "[3, 3] \<in> set SHAPES \<and> \<not> game_over ex_full \<and> add_piece ex_full [3, 3] = Inr ex_over
   \<and> rot (current_piece ex_over) = N \<and> shapes (current_piece ex_over) N = [3, 3]
   \<and> col (loc (current_piece ex_over)) = 2 \<and> row (loc (current_piece ex_over)) = 2
   \<and> game_over ex_over \<and> \<not> placement_ok ex_over"
proof -
  from spawn_places_and_detects [OF square_in_SHAPES, of ex_full] obtain s' where
    a: "add_piece ex_full [3, 3] = Inr s'"
    and f: "rot (current_piece s') = N" "shapes (current_piece s') N = [3, 3]"
      "col (loc (current_piece s')) = int (width ex_full div 2)"
      "row (loc (current_piece s')) = int (height ex_full) - int (length (shapes (current_piece s') N))"
    and g: "game_over s' \<longleftrightarrow> game_over ex_full \<or> \<not> placement_ok s'"
    by blast
  from a ex_over have s': "s' = ex_over" by simp
  from g have "\<not> placement_ok ex_over"
    unfolding s' using ex_full_values(1,5) by simp
  moreover from f(3) have "col (loc (current_piece ex_over)) = 2"
    unfolding s' ex_full_values(2) by simp
  moreover from f(4) have "row (loc (current_piece ex_over)) = 2"
    unfolding s' f(2) [unfolded s'] ex_full_values(3) by simp
  ultimately show ?thesis
    using f(1,2) [unfolded s'] square_in_SHAPES ex_over ex_full_values(1,5) by blast
qed

subsection \<open>C9: the drop\<close>



subsection \<open>C10: where the lock writes\<close>

text \<open>
  C10 says that whenever a rejected \<^verbatim>\<open>move_down\<close> triggers a lock, the anchor row is
  at most the number of board rows and every row of the piece is merged into a board row
  or appended at the top. As stated this fails on a board too small for the spawn, where
  the constructor leaves an invalid piece and a flag that is down: on a board 2 wide
  the S piece stands at row 18 above an empty board when the lock is triggered, and the
  lock raises \<^verbatim>\<open>ValueError\<close>; on a board 1 high the square is at row -1 and the
  lock raises \<^verbatim>\<open>IndexError\<close>.
\<close>

theorem lock_on_small_board:
  "reachable ex_c0 \<and> \<not> game_over ex_c0
   \<and> \<not> piece_en_cours (set_row (cur_row ex_c0 - 1) ex_c0)
   \<and> cur_row ex_c0 = 18 \<and> length (board ex_c0) = 0
   \<and> map_sum id fst (move_down ex_c0 [3, 3]) = Inl ValueError
   \<and> reachable ex_c1 \<and> \<not> game_over ex_c1
   \<and> \<not> piece_en_cours (set_row (cur_row ex_c1 - 1) ex_c1)
   \<and> cur_row ex_c1 = - 1 \<and> length (board ex_c1) = 0
   \<and> map_sum id fst (move_down ex_c1 [3, 3]) = Inl IndexError"
  by (intro conjI r_init [OF ess_in_SHAPES ex_c0] r_init [OF square_in_SHAPES ex_c1] ex_c_values)

text \<open>
  C10 as amended: in every reachable state of a board at least 6 wide and 4 high (the
  default board is 10 by 20), when \<^verbatim>\<open>move_down\<close> is rejected the anchor row is between
  0 and the number of board rows, the rows of the piece are produced and the merge loop
  returns; the merged board is as long as the higher of the old board and the top of
  the piece, and its row \<open>i\<close> is row \<open>i\<close> of the old board joined by OR with the row of
  the piece that lies on row \<open>i\<close>, if there is one. So every row of the piece is written
  at its own index, into an existing row or as the row appended at the top.
\<close>

theorem lock_merges_in_place:
  assumes "reachable s" and "6 \<le> width s" and "4 \<le> height s"
    and "\<not> piece_en_cours (set_row (cur_row s - 1) s)"
  shows "0 \<le> cur_row s \<and> cur_row s \<le> int (length (board s))
       \<and> (\<exists>shape merged.
             get_bits (current_piece s) = Inr shape
           \<and> merge_loop (board s) (cur_row s) shape = Inr merged
           \<and> length merged = max (length (board s)) (nat (cur_row s) + length shape)
           \<and> (\<forall>i. row_at merged i =
                 row_at (board s) i OR
                 (if nat (cur_row s) \<le> i \<and> i < nat (cur_row s) + length shape
                  then shape ! (i - nat (cur_row s)) else 0)))"
proof -
  from assms(1-3) have ib: "in_bounds s"
    using reachable_in_bounds by simp
  then have r0: "0 \<le> cur_row s"
    by (simp add: in_bounds_def)
  from ib assms(4) have rl: "cur_row s \<le> int (length (board s))"
    by (rule rejected_on_floor_or_stack)
  from ib have gb: "get_bits (current_piece s) = Inr (shift_layers (current_piece s))"
    by (simp add: get_bits_def in_bounds_def cur_col_def)
  from merge_loop_in_place [OF r0 rl, of "shift_layers (current_piece s)"] gb r0 rl
  show ?thesis by blast
qed

text \<open>The square resting on the locked line: its two rows are appended as rows 4 and 5.\<close>

theorem lock_merges_in_place_witness:
  "reachable ex_d3 \<and> 6 \<le> width ex_d3 \<and> 4 \<le> height ex_d3
   \<and> \<not> piece_en_cours (set_row (cur_row ex_d3 - 1) ex_d3)
   \<and> cur_row ex_d3 = 4 \<and> length (board ex_d3) = 4
   \<and> get_bits (current_piece ex_d3) = Inr [24, 24]
   \<and> merge_loop (board ex_d3) (cur_row ex_d3) [24, 24] = Inr [16, 16, 16, 16, 24, 24]"
proof -
  have d: "6 \<le> width ex_d3" "4 \<le> height ex_d3"
    by (simp_all add: ex_d3_values(4,5))
  from lock_merges_in_place [OF reachable_ex_d3 d ex_d3_values(1)] obtain shape merged where
    gb: "get_bits (current_piece ex_d3) = Inr shape"
    and ml: "merge_loop (board ex_d3) (cur_row ex_d3) shape = Inr merged"
    and len: "length merged = max (length (board ex_d3)) (nat (cur_row ex_d3) + length shape)"
    by blast
  from gb have shape: "shape = [24, 24]"
    by (simp add: ex_d3_values(6))
  from len have "length merged = 6"
    unfolding shape ex_d3_values(2,3) by simp
  have m: "merge_loop (board ex_d3) (cur_row ex_d3) [24, 24] = Inr [16, 16, 16, 16, 24, 24]"
    unfolding ex_d3_values(2,3) by (rule ex_d3_values(7))
  have l: "length (board ex_d3) = 4"
    unfolding ex_d3_values(3) by simp
  show ?thesis
    by (intro conjI reachable_ex_d3 d ex_d3_values(1,2,6) m l)
qed

end
